theory Spec2Isabelle
  imports Main "HOL-Library.Word"
begin

section \<open>Outcomes of Go calls\<close>

text \<open>
  A Go call either returns or panics.  A panic is an outcome of its own, distinct from a
  returned \<open>error\<close> value.
\<close>

datatype panic =
    IndexOutOfRange
  | SliceBoundsOutOfRange
  | NilPointerDereference
  | TypeAssertionFailed
  | ExplicitPanic string

datatype 'a outcome = Return 'a | Panicked panic

text \<open>
  Go \<open>error\<close> values.  \<open>NotFound\<close> and \<open>statusError\<close> are the typed errors of package
  \<open>web\<close>, \<open>ChildNotFound\<close> the one of package \<open>main\<close> (\<open>sb/errors.go\<close>);
  \<open>Errorf\<close> and \<open>ErrorfWithCause\<close> stand for the formatted errors of
  \<open>github.com/skillian/errors\<close> (format string and printed arguments), and
  \<open>ExternalError\<close> for an error produced by the standard library (transport, JSON).
\<close>

datatype error =
    NotFound string int string
  | statusError int string
  | ChildNotFound string int
  | Errorf string "string list"
  | ErrorfWithCause error string "string list"
  | ExternalError string

section \<open>Package fs: the entries collection (\<open>fs/entries.go\<close>)\<close>

datatype EntryID = DocumentID_fs int | FolderID_fs int

datatype EntryName = DocumentName_fs string | FolderName_fs string

text \<open>
  \<open>entries\<close>: the items and two maps from names and ids to positions in \<open>items\<close>.
  The type \<open>'e\<close> stands for the interface values stored (\<open>Entry\<close>).
\<close>

record 'e entries =
  items :: "'e list"
  entry_names :: "EntryName \<rightharpoonup> nat"
  entry_ids :: "EntryID \<rightharpoonup> nat"

text \<open>
  \<open>i, ok := m[k]\<close> on a Go map: a missing key gives the zero value and \<open>ok = false\<close>.
\<close>

definition comma_ok :: "('k \<rightharpoonup> nat) \<Rightarrow> 'k \<Rightarrow> nat \<times> bool" where
  "comma_ok m k = (case m k of None \<Rightarrow> (0, False) | Some i \<Rightarrow> (i, True))"

text \<open>\<open>xs[i]\<close> on a Go slice panics when \<open>i\<close> is out of range.\<close>

definition index :: "'a list \<Rightarrow> nat \<Rightarrow> 'a outcome" where
  "index xs i = (if i < length xs then Return (xs ! i) else Panicked IndexOutOfRange)"

definition EntryByID :: "'e entries \<Rightarrow> EntryID \<Rightarrow> ('e option \<times> bool) outcome" where
  "EntryByID e eid =
     (let (i, ok) = comma_ok (entry_ids e) eid in
      if ok then
        (case index (items e) i of
           Panicked p \<Rightarrow> Panicked p
         | Return x \<Rightarrow> Return (Some x, True))
      else Return (None, False))"

definition EntryByName :: "'e entries \<Rightarrow> EntryName \<Rightarrow> ('e option \<times> bool) outcome" where
  "EntryByName e name =
     (let (i, ok) = comma_ok (entry_names e) name in
      if \<not> ok then
        (case index (items e) i of
           Panicked p \<Rightarrow> Panicked p
         | Return x \<Rightarrow> Return (Some x, True))
      else Return (None, False))"

section \<open>Package web: the entities fetched from the remote service (\<open>web/models.go\<close>)\<close>

text \<open>
  Go's \<open>int\<close> ids are only stored, compared and used as map keys, so they are modelled
  as \<open>int\<close>.  \<open>time.Time\<close> is an opaque timestamp.  The nested \<open>Links\<close> structs of a
  library and of a document are flattened into their fields.
\<close>

record web_Library =
  LibraryID :: int
  LibraryName :: string
  IsPrivate :: bool
  lib_Links_Self :: string
  lib_Links_Folders :: string

record web_Document =
  DocumentID :: int
  DocumentName :: string
  DateModified :: int
  doc_Links_Self :: string
  doc_Links_Content :: string

record FolderLinks =
  fl_Self :: string
  fl_Folders :: string
  fl_Documents :: string
  fl_Shares :: string

datatype web_Folder =
  web_Folder (FolderID: int) (FolderName: string) (fld_LibraryID: int)
    (fld_Links: FolderLinks) (Embedded: FolderEmbedded)
and FolderEmbedded =
  FolderEmbedded (Documents: "web_Document list") (Folders: "web_Folder list")

section \<open>Package main (\<open>sb/models.go\<close>): the tree of objects\<close>

type_synonym addr = nat

text \<open>
  A value of the interface \<open>Object\<close>: the dynamic type and the pointer.  There is one
  \<open>Root\<close> per tree; \<open>*Library\<close>, \<open>*Folder\<close> and \<open>*Document\<close> are pointers into one
  heap per struct type, so that two interface values are the same object exactly when
  they are equal.
\<close>

datatype object = The_Root | LibraryPtr addr | FolderPtr addr | DocumentPtr addr

record objects =
  children :: "object list"
  ids :: "int \<rightharpoonup> nat"
  names :: "string \<rightharpoonup> nat"

record sb_Library =
  lib_web :: web_Library
  lib_folders :: objects

record sb_Folder =
  DotDot :: object
  fld_web :: web_Folder
  fld_objects :: objects

record sb_Document =
  doc_Folder :: addr
  doc_web :: web_Document

record libFldDoc =
  lfd_Library :: "addr option"
  lfd_Folder :: "addr option"
  lfd_Document :: "addr option"

text \<open>The requests a \<open>web.Client\<close> is asked for by the tree, and what comes back.\<close>

datatype request =
    GetLibraries
  | GetLibraryFolders string
  | GetFolder string int

datatype response =
    Failed error
  | LibrariesJSON "web_Library list"
  | FoldersJSON "web_Folder list"
  | FolderJSON web_Folder

text \<open>
  The remote service as seen through a client: the answer to a request may depend on
  the requests issued before it.
\<close>

type_synonym remote = "request list \<Rightarrow> request \<Rightarrow> response"

text \<open>
  The \<open>Root\<close> struct (\<open>root_objects\<close>, \<open>idCache\<close>, \<open>missing\<close>), the heaps the pointers
  of the tree point into, the next address \<open>new\<close> hands out, and the requests the
  client has issued so far (\<open>web.Client\<close> counts them in \<open>numRequests\<close>).
\<close>

record world =
  root_objects :: objects
  idCache :: "int \<rightharpoonup> libFldDoc"
  missing :: "int \<rightharpoonup> libFldDoc"
  lib_heap :: "addr \<Rightarrow> sb_Library"
  fld_heap :: "addr \<Rightarrow> sb_Folder"
  doc_heap :: "addr \<Rightarrow> sb_Document"
  next_addr :: addr
  sent :: "request list"

fun ID :: "world \<Rightarrow> object \<Rightarrow> int" where
  "ID w The_Root = 0"
| "ID w (LibraryPtr a) = LibraryID (lib_web (lib_heap w a))"
| "ID w (FolderPtr a) = FolderID (fld_web (fld_heap w a))"
| "ID w (DocumentPtr a) = DocumentID (doc_web (doc_heap w a))"

fun Name :: "world \<Rightarrow> object \<Rightarrow> string" where
  "Name w The_Root = []"
| "Name w (LibraryPtr a) = LibraryName (lib_web (lib_heap w a))"
| "Name w (FolderPtr a) = FolderName (fld_web (fld_heap w a))"
| "Name w (DocumentPtr a) = DocumentName (doc_web (doc_heap w a))"

subsection \<open>The objects collection\<close>

text \<open>\<open>objects.init\<close>: the capacity only sizes the allocations.\<close>

definition init :: "int \<Rightarrow> objects" where
  "init capacity = \<lparr>children = [], ids = Map.empty, names = Map.empty\<rparr>"

text \<open>
  \<open>ChildByID\<close> and \<open>ChildByName\<close> return \<open>(o.children[i], true)\<close> or \<open>(nil, false)\<close>:
  \<open>Some c\<close> is the first, \<open>None\<close> the second.
\<close>

definition ChildByID :: "objects \<Rightarrow> int \<Rightarrow> object option outcome" where
  "ChildByID obs cid =
     (let (i, ok) = comma_ok (ids obs) cid in
      if \<not> ok then Return None
      else (case index (children obs) i of
              Panicked p \<Rightarrow> Panicked p
            | Return c \<Rightarrow> Return (Some c)))"

definition ChildByName :: "objects \<Rightarrow> string \<Rightarrow> object option outcome" where
  "ChildByName obs name =
     (let (i, ok) = comma_ok (names obs) name in
      if \<not> ok then Return None
      else (case index (children obs) i of
              Panicked p \<Rightarrow> Panicked p
            | Return c \<Rightarrow> Return (Some c)))"

text \<open>\<open>objects.add\<close> returns the collection as it has become, the index and \<open>added\<close>.\<close>

definition add :: "world \<Rightarrow> objects \<Rightarrow> object \<Rightarrow> objects \<times> nat \<times> bool" where
  "add w obs c =
     (let cid = ID w c in
      if snd (comma_ok (ids obs) cid) then (obs, 0, False)
      else
        let name = Name w c in
        if snd (comma_ok (names obs) name) then (obs, 0, False)
        else
          let ix = length (children obs) in
          (obs\<lparr>children := children obs @ [c],
               ids := (ids obs)(cid \<mapsto> ix),
               names := (names obs)(name \<mapsto> ix)\<rparr>, ix, True))"

text \<open>
  The loop of \<open>objects.del\<close> over \<open>o.children[x0+1:]\<close>: \<open>i\<close> counts from 0 and \<open>cs\<close> is
  what is left of the range.  Every write goes to a position the range has already
  passed, so the values the range yields are those of the slice before the loop.
\<close>

fun del_loop :: "world \<Rightarrow> nat \<Rightarrow> nat \<Rightarrow> object list \<Rightarrow> objects \<Rightarrow> objects" where
  "del_loop w x0 i [] obs = obs"
| "del_loop w x0 i (c # cs) obs =
     del_loop w x0 (Suc i) cs
       (obs\<lparr>children := (children obs)[x0 + i := c],
            ids := (ids obs)(ID w c \<mapsto> x0 + i),
            names := (names obs)(Name w c \<mapsto> x0 + i)\<rparr>)"

definition del :: "world \<Rightarrow> objects \<Rightarrow> object \<Rightarrow> (objects \<times> bool) outcome" where
  "del w obs c =
     (let (x0, ok) = comma_ok (ids obs) (ID w c) in
      if \<not> ok then Return (obs, False)
      else
        let (x1, ok) = comma_ok (names obs) (Name w c) in
        if \<not> ok then Return (obs, False)
        else if x0 \<noteq> x1 then Return (obs, False)
        else if length (children obs) < x0 + 1 then Panicked SliceBoundsOutOfRange
        else
          let obs1 = del_loop w x0 0 (drop (x0 + 1) (children obs)) obs in
          (case index (children obs1) (length (children obs1) - 1) of
             Panicked p \<Rightarrow> Panicked p
           | Return l \<Rightarrow>
               Return (obs1\<lparr>ids := (ids obs1)(ID w l := None),
                            names := (names obs1)(Name w l := None)\<rparr>, True)))"

subsection \<open>A new tree\<close>

text \<open>
  Memory that \<open>new\<close> has not handed out yet holds zero values; no pointer of the tree
  points there.  (The zero \<open>DotDot\<close> is Go's nil interface; it is only ever read from
  a folder that \<open>newFolder\<close> has built, where it is the parent.)
\<close>

definition zero_web_Library :: web_Library where
  "zero_web_Library =
     \<lparr>LibraryID = 0, LibraryName = [], IsPrivate = False,
      lib_Links_Self = [], lib_Links_Folders = []\<rparr>"

definition zero_web_Document :: web_Document where
  "zero_web_Document =
     \<lparr>DocumentID = 0, DocumentName = [], DateModified = 0,
      doc_Links_Self = [], doc_Links_Content = []\<rparr>"

definition zero_web_Folder :: web_Folder where
  "zero_web_Folder =
     web_Folder 0 [] 0 \<lparr>fl_Self = [], fl_Folders = [], fl_Documents = [], fl_Shares = []\<rparr>
       (FolderEmbedded [] [])"

definition zero_objects :: objects where
  "zero_objects = \<lparr>children = [], ids = Map.empty, names = Map.empty\<rparr>"

text \<open>\<open>NewRoot\<close>: an empty collection of libraries and two empty registries.\<close>

definition NewRoot :: world where
  "NewRoot =
     \<lparr>root_objects = init 8,
      idCache = Map.empty,
      missing = Map.empty,
      lib_heap = (\<lambda>a. \<lparr>lib_web = zero_web_Library, lib_folders = zero_objects\<rparr>),
      fld_heap = (\<lambda>a. \<lparr>DotDot = The_Root, fld_web = zero_web_Folder,
                          fld_objects = zero_objects\<rparr>),
      doc_heap = (\<lambda>a. \<lparr>doc_Folder = 0, doc_web = zero_web_Document\<rparr>),
      next_addr = 0,
      sent = []\<rparr>"

subsection \<open>The identity registries\<close>

definition zero_libFldDoc :: libFldDoc where
  "zero_libFldDoc = \<lparr>lfd_Library = None, lfd_Folder = None, lfd_Document = None\<rparr>"

text \<open>\<open>m[k]\<close> on a \<open>map[int]libFldDoc\<close>: the zero bundle when the key is missing.\<close>

definition lookup_lfd :: "(int \<rightharpoonup> libFldDoc) \<Rightarrow> int \<Rightarrow> libFldDoc" where
  "lookup_lfd m k = (case m k of None \<Rightarrow> zero_libFldDoc | Some l \<Rightarrow> l)"

definition lfd_empty :: "libFldDoc \<Rightarrow> bool" where
  "lfd_empty lfd \<longleftrightarrow> lfd_Library lfd = None \<and> lfd_Folder lfd = None \<and> lfd_Document lfd = None"

definition updateMap :: "libFldDoc \<Rightarrow> (int \<rightharpoonup> libFldDoc) \<Rightarrow> int \<Rightarrow> (int \<rightharpoonup> libFldDoc)" where
  "updateMap lfd m k = (if lfd_empty lfd then m(k := None) else m(k \<mapsto> lfd))"

subsection \<open>Requests through the client (\<open>web/client.go\<close>, \<open>web/models.go\<close>)\<close>

definition do_request :: "remote \<Rightarrow> world \<Rightarrow> request \<Rightarrow> response \<times> world" where
  "do_request rm w req = (rm (sent w) req, w\<lparr>sent := sent w @ [req]\<rparr>)"

definition unmarshal_error :: error where
  "unmarshal_error = ExternalError ''json: cannot unmarshal''"

definition Libraries :: "remote \<Rightarrow> world \<Rightarrow> (error + web_Library list) \<times> world" where
  "Libraries rm w =
     (let (res, w) = do_request rm w GetLibraries in
      case res of
        LibrariesJSON wls \<Rightarrow> (Inr wls, w)
      | Failed e \<Rightarrow> (Inl e, w)
      | _ \<Rightarrow> (Inl unmarshal_error, w))"

definition web_Library_Folders ::
  "remote \<Rightarrow> world \<Rightarrow> web_Library \<Rightarrow> (error + web_Folder list) \<times> world" where
  "web_Library_Folders rm w lib =
     (let (res, w) = do_request rm w (GetLibraryFolders (lib_Links_Folders lib)) in
      case res of
        FoldersJSON wfs \<Rightarrow> (Inr wfs, w)
      | Failed e \<Rightarrow> (Inl e, w)
      | _ \<Rightarrow> (Inl unmarshal_error, w))"

text \<open>
  \<open>(*web.Library).Folder\<close> and \<open>(*web.Folder).Folder\<close> get one folder by id, with its
  documents and folders embedded, from the \<open>Folders\<close> link of the receiver; a
  \<open>NotFound\<close> is filled in with the kind and the id.
\<close>

definition folder_by_id :: "remote \<Rightarrow> world \<Rightarrow> string \<Rightarrow> int \<Rightarrow> (error + web_Folder) \<times> world" where
  "folder_by_id rm w link fid =
     (let (res, w) = do_request rm w (GetFolder link fid) in
      case res of
        FolderJSON wfld \<Rightarrow> (Inr wfld, w)
      | Failed (NotFound k i n) \<Rightarrow> (Inl (NotFound ''Folder'' fid []), w)
      | Failed e \<Rightarrow> (Inl e, w)
      | _ \<Rightarrow> (Inl unmarshal_error, w))"

definition web_Library_Folder ::
  "remote \<Rightarrow> world \<Rightarrow> web_Library \<Rightarrow> int \<Rightarrow> (error + web_Folder) \<times> world" where
  "web_Library_Folder rm w lib fid = folder_by_id rm w (lib_Links_Folders lib) fid"

definition web_Folder_Folder ::
  "remote \<Rightarrow> world \<Rightarrow> web_Folder \<Rightarrow> int \<Rightarrow> (error + web_Folder) \<times> world" where
  "web_Folder_Folder rm w f fid = folder_by_id rm w (fl_Folders (fld_Links f)) fid"

subsection \<open>\<open>Root.update\<close>\<close>

definition newLibrary :: "world \<Rightarrow> web_Library \<Rightarrow> addr \<times> world" where
  "newLibrary w wl =
     (let a = next_addr w in
      (a, w\<lparr>lib_heap := (lib_heap w)(a := \<lparr>lib_web = wl, lib_folders = init 0\<rparr>),
            next_addr := Suc a\<rparr>))"

text \<open>The body of the first loop of \<open>Root.update\<close>, for one fetched library.\<close>

definition update_library :: "world \<Rightarrow> objects \<Rightarrow> web_Library \<Rightarrow> (world \<times> objects) outcome" where
  "update_library w libs wl =
     (let lfd = lookup_lfd (idCache w) (LibraryID wl);
          (lfd, w) =
            (if lfd_Library lfd = None then
               (case missing w (LibraryID wl) of
                  Some lfd2 \<Rightarrow>
                    if lfd_Library lfd2 \<noteq> None
                    then (lfd\<lparr>lfd_Library := lfd_Library lfd2\<rparr>,
                          w\<lparr>missing := updateMap (lfd2\<lparr>lfd_Library := None\<rparr>)
                                         (missing w) (LibraryID wl)\<rparr>)
                    else (lfd, w)
                | None \<Rightarrow>
                    (let (a, w) = newLibrary w wl in (lfd\<lparr>lfd_Library := Some a\<rparr>, w)))
             else (lfd, w))
      in case lfd_Library lfd of
           None \<Rightarrow> Panicked NilPointerDereference
         | Some a \<Rightarrow>
             let w = w\<lparr>lib_heap := (lib_heap w)(a := (lib_heap w a)\<lparr>lib_web := wl\<rparr>)\<rparr>;
                 (libs, ix, added) = add w libs (LibraryPtr a);
                 w = w\<lparr>idCache := (idCache w)(LibraryID wl \<mapsto> lfd)\<rparr>
             in Return (w, libs))"

fun update_libraries :: "world \<Rightarrow> objects \<Rightarrow> web_Library list \<Rightarrow> (world \<times> objects) outcome" where
  "update_libraries w libs [] = Return (w, libs)"
| "update_libraries w libs (wl # wls) =
     (case update_library w libs wl of
        Panicked p \<Rightarrow> Panicked p
      | Return (w, libs) \<Rightarrow> update_libraries w libs wls)"

text \<open>The second loop of \<open>Root.update\<close>, over the children the root had before.\<close>

fun missing_libraries :: "world \<Rightarrow> objects \<Rightarrow> object list \<Rightarrow> world outcome" where
  "missing_libraries w libs [] = Return w"
| "missing_libraries w libs (c # cs) =
     (let cid = ID w c in
      if \<not> snd (comma_ok (ids libs) cid) then
        (case c of
           LibraryPtr a \<Rightarrow>
             missing_libraries
               (w\<lparr>missing := (missing w)(cid \<mapsto> (lookup_lfd (missing w) cid)\<lparr>lfd_Library := Some a\<rparr>)\<rparr>)
               libs cs
         | _ \<Rightarrow> Panicked TypeAssertionFailed)
      else missing_libraries w libs cs)"

text \<open>
  \<open>Root.update\<close>.  There is one root in a \<open>world\<close>, so the receiver and \<open>r2\<close> are the
  same root and the panic on two different roots does not arise.
\<close>

definition Root_update :: "remote \<Rightarrow> world \<Rightarrow> (error option \<times> world) outcome" where
  "Root_update rm w =
     (let (res, w) = Libraries rm w in
      case res of
        Inl err \<Rightarrow> Return (Some err, w)
      | Inr wls \<Rightarrow>
          (case update_libraries w (init (int (length wls))) wls of
             Panicked p \<Rightarrow> Panicked p
           | Return (w, libs) \<Rightarrow>
               (case missing_libraries w libs (children (root_objects w)) of
                  Panicked p \<Rightarrow> Panicked p
                | Return w \<Rightarrow> Return (None, w\<lparr>root_objects := libs\<rparr>))))"

subsection \<open>\<open>Root.updateObjects\<close>\<close>

text \<open>A pointer to an \<open>objects\<close> struct: the one embedded in the root, a library or a folder.\<close>

datatype objects_ptr = RootObjects | LibraryFolders addr | FolderObjects addr

fun get_objects :: "world \<Rightarrow> objects_ptr \<Rightarrow> objects" where
  "get_objects w RootObjects = root_objects w"
| "get_objects w (LibraryFolders a) = lib_folders (lib_heap w a)"
| "get_objects w (FolderObjects a) = fld_objects (fld_heap w a)"

fun set_objects :: "world \<Rightarrow> objects_ptr \<Rightarrow> objects \<Rightarrow> world" where
  "set_objects w RootObjects obs = w\<lparr>root_objects := obs\<rparr>"
| "set_objects w (LibraryFolders a) obs =
     w\<lparr>lib_heap := (lib_heap w)(a := (lib_heap w a)\<lparr>lib_folders := obs\<rparr>)\<rparr>"
| "set_objects w (FolderObjects a) obs =
     w\<lparr>fld_heap := (fld_heap w)(a := (fld_heap w a)\<lparr>fld_objects := obs\<rparr>)\<rparr>"

definition newFolder :: "world \<Rightarrow> object \<Rightarrow> web_Folder \<Rightarrow> addr \<times> world" where
  "newFolder w p wfld =
     (let a = next_addr w in
      (a, w\<lparr>fld_heap := (fld_heap w)
               (a := \<lparr>DotDot = p, fld_web = wfld,
                      fld_objects = init (int (length (Documents (Embedded wfld))
                                               + length (Folders (Embedded wfld))))\<rparr>),
            next_addr := Suc a\<rparr>))"

definition set_Embedded :: "web_Folder \<Rightarrow> FolderEmbedded \<Rightarrow> web_Folder" where
  "set_Embedded wfld e =
     web_Folder (FolderID wfld) (FolderName wfld) (fld_LibraryID wfld) (fld_Links wfld) e"

text \<open>
  The body of the loop over the fetched folders.  \<open>lfd.Folder = newFolder(p, wf)\<close> is not
  in an \<open>else\<close>: it runs whenever the registry had no folder for the id, also after a
  folder has been taken out of \<open>missing\<close>.
\<close>

definition updateObjects_folder ::
  "world \<Rightarrow> object \<Rightarrow> objects \<Rightarrow> web_Folder \<Rightarrow> (world \<times> objects) outcome" where
  "updateObjects_folder w p objs wfld =
     (let lfd = lookup_lfd (idCache w) (FolderID wfld);
          (lfd, w) =
            (if lfd_Folder lfd = None then
               let (lfd, w) =
                     (case missing w (FolderID wfld) of
                        Some lfd2 \<Rightarrow>
                          if lfd_Folder lfd2 \<noteq> None
                          then (lfd\<lparr>lfd_Folder := lfd_Folder lfd2\<rparr>,
                                w\<lparr>missing := updateMap (lfd2\<lparr>lfd_Folder := None\<rparr>)
                                               (missing w) (FolderID wfld)\<rparr>)
                          else (lfd, w)
                      | None \<Rightarrow> (lfd, w));
                   (a, w) = newFolder w p wfld
               in (lfd\<lparr>lfd_Folder := Some a\<rparr>, w)
             else (lfd, w))
      in case lfd_Folder lfd of
           None \<Rightarrow> Panicked NilPointerDereference
         | Some a \<Rightarrow>
             let oldEmbed = Embedded (fld_web (fld_heap w a));
                 w = w\<lparr>fld_heap := (fld_heap w)
                         (a := (fld_heap w a)\<lparr>fld_web := set_Embedded wfld oldEmbed\<rparr>)\<rparr>;
                 (objs, ix, added) = add w objs (FolderPtr a);
                 w = w\<lparr>idCache := (idCache w)(FolderID wfld \<mapsto> lfd)\<rparr>
             in Return (w, objs))"

fun updateObjects_folders ::
  "world \<Rightarrow> object \<Rightarrow> objects \<Rightarrow> web_Folder list \<Rightarrow> (world \<times> objects) outcome" where
  "updateObjects_folders w p objs [] = Return (w, objs)"
| "updateObjects_folders w p objs (wfld # wfs) =
     (case updateObjects_folder w p objs wfld of
        Panicked e \<Rightarrow> Panicked e
      | Return (w, objs) \<Rightarrow> updateObjects_folders w p objs wfs)"

text \<open>
  The body of the loop over the fetched documents.  A new document is built only when
  \<open>missing\<close> has no bundle for the id; \<open>p.(*Folder)\<close> panics on any other parent.
\<close>

definition updateObjects_document ::
  "world \<Rightarrow> object \<Rightarrow> objects \<Rightarrow> web_Document \<Rightarrow> (world \<times> objects) outcome" where
  "updateObjects_document w p objs wd =
     (let lfd = lookup_lfd (idCache w) (DocumentID wd);
          r =
            (if lfd_Document lfd = None then
               (case missing w (DocumentID wd) of
                  Some lfd2 \<Rightarrow>
                    if lfd_Document lfd2 \<noteq> None
                    then Return (lfd\<lparr>lfd_Document := lfd_Document lfd2\<rparr>,
                                 w\<lparr>missing := updateMap (lfd2\<lparr>lfd_Document := None\<rparr>)
                                                (missing w) (DocumentID wd)\<rparr>)
                    else Return (lfd, w)
                | None \<Rightarrow>
                    (case p of
                       FolderPtr f \<Rightarrow>
                         let a = next_addr w in
                         Return (lfd\<lparr>lfd_Document := Some a\<rparr>,
                                 w\<lparr>doc_heap := (doc_heap w)
                                      (a := \<lparr>doc_Folder = f, doc_web = zero_web_Document\<rparr>),
                                   next_addr := Suc a\<rparr>)
                     | _ \<Rightarrow> Panicked TypeAssertionFailed))
             else Return (lfd, w))
      in case r of
           Panicked e \<Rightarrow> Panicked e
         | Return (lfd, w) \<Rightarrow>
            (case lfd_Document lfd of
               None \<Rightarrow> Panicked NilPointerDereference
             | Some a \<Rightarrow>
                 let w = w\<lparr>doc_heap := (doc_heap w)(a := (doc_heap w a)\<lparr>doc_web := wd\<rparr>)\<rparr>;
                     (objs, ix, added) = add w objs (DocumentPtr a);
                     w = w\<lparr>idCache := (idCache w)(DocumentID wd \<mapsto> lfd)\<rparr>
                 in Return (w, objs)))"

fun updateObjects_documents ::
  "world \<Rightarrow> object \<Rightarrow> objects \<Rightarrow> web_Document list \<Rightarrow> (world \<times> objects) outcome" where
  "updateObjects_documents w p objs [] = Return (w, objs)"
| "updateObjects_documents w p objs (wd # wds) =
     (case updateObjects_document w p objs wd of
        Panicked e \<Rightarrow> Panicked e
      | Return (w, objs) \<Rightarrow> updateObjects_documents w p objs wds)"

text \<open>The loop over the children \<open>obs\<close> had before: those not fetched again go to \<open>missing\<close>.\<close>

fun updateObjects_missing :: "world \<Rightarrow> objects \<Rightarrow> object list \<Rightarrow> world outcome" where
  "updateObjects_missing w objs [] = Return w"
| "updateObjects_missing w objs (c # cs) =
     (let cid = ID w c in
      if \<not> snd (comma_ok (ids objs) cid) then
        (let lfd = lookup_lfd (missing w) cid in
         case c of
           DocumentPtr a \<Rightarrow>
             updateObjects_missing
               (w\<lparr>missing := (missing w)(cid \<mapsto> lfd\<lparr>lfd_Document := Some a\<rparr>)\<rparr>) objs cs
         | FolderPtr a \<Rightarrow>
             updateObjects_missing
               (w\<lparr>missing := (missing w)(cid \<mapsto> lfd\<lparr>lfd_Folder := Some a\<rparr>)\<rparr>) objs cs
         | _ \<Rightarrow> Panicked (ExplicitPanic ''invalid object type: %T''))
      else updateObjects_missing w objs cs)"

text \<open>\<open>updateObjects\<close> always returns a nil error when it returns.\<close>

definition updateObjects ::
  "world \<Rightarrow> object \<Rightarrow> objects_ptr \<Rightarrow> web_Folder list \<Rightarrow> web_Document list
    \<Rightarrow> (error option \<times> world) outcome" where
  "updateObjects w p obs wfs wds =
     (case updateObjects_folders w p (init (int (length wfs + length wds))) wfs of
        Panicked e \<Rightarrow> Panicked e
      | Return (w, objs) \<Rightarrow>
          (case updateObjects_documents w p objs wds of
             Panicked e \<Rightarrow> Panicked e
           | Return (w, objs) \<Rightarrow>
               (case updateObjects_missing w objs (children (get_objects w obs)) of
                  Panicked e \<Rightarrow> Panicked e
                | Return w \<Rightarrow> Return (None, set_objects w obs objs))))"

subsection \<open>\<open>update\<close> of a library, a folder and a document\<close>

definition Library_update :: "remote \<Rightarrow> world \<Rightarrow> addr \<Rightarrow> (error option \<times> world) outcome" where
  "Library_update rm w l =
     (let (res, w) = web_Library_Folders rm w (lib_web (lib_heap w l)) in
      case res of
        Inl err \<Rightarrow> Return (Some err, w)
      | Inr wfs \<Rightarrow> updateObjects w (LibraryPtr l) (LibraryFolders l) wfs [])"

text \<open>
  \<open>Folder.update\<close> with \<open>getWebUpdaterFunc\<close> inlined: the folder is fetched through its
  parent, a library or a folder; any other parent panics before a request is made.
\<close>

definition Folder_update :: "remote \<Rightarrow> world \<Rightarrow> addr \<Rightarrow> (error option \<times> world) outcome" where
  "Folder_update rm w f =
     (let fid = FolderID (fld_web (fld_heap w f)) in
      case (case DotDot (fld_heap w f) of
              LibraryPtr l \<Rightarrow> Return (web_Library_Folder rm w (lib_web (lib_heap w l)) fid)
            | FolderPtr g \<Rightarrow> Return (web_Folder_Folder rm w (fld_web (fld_heap w g)) fid)
            | _ \<Rightarrow> Panicked (ExplicitPanic ''invalid parent type: %T'')) of
        Panicked e \<Rightarrow> Panicked e
      | Return (Inl err, w) \<Rightarrow> Return (Some err, w)
      | Return (Inr wfld, w) \<Rightarrow>
          updateObjects w (FolderPtr f) (FolderObjects f)
            (Folders (Embedded wfld)) (Documents (Embedded wfld)))"

text \<open>\<open>Document.update\<close> does nothing: a document is updated from its folder.\<close>

definition Document_update :: "remote \<Rightarrow> world \<Rightarrow> addr \<Rightarrow> (error option \<times> world) outcome" where
  "Document_update rm w d = Return (None, w)"

text \<open>The call \<open>p.update(r, c)\<close> on an interface value.\<close>

fun update :: "remote \<Rightarrow> world \<Rightarrow> object \<Rightarrow> (error option \<times> world) outcome" where
  "update rm w The_Root = Root_update rm w"
| "update rm w (LibraryPtr l) = Library_update rm w l"
| "update rm w (FolderPtr f) = Folder_update rm w f"
| "update rm w (DocumentPtr d) = Document_update rm w d"

subsection \<open>\<open>Root.ObjectByPath\<close>\<close>

text \<open>
  The type assertion \<open>o.(Parent)\<close>.  \<open>Parent\<close> asks for \<open>ChildByName\<close> and \<open>Children\<close>
  on top of \<open>Object\<close>.  \<open>Root\<close> has them from its embedded \<open>objects\<close>, \<open>Library\<close> and
  \<open>Folder\<close> declare them, and \<open>Document\<close> embeds \<open>*Folder\<close>, whose methods
  \<open>ChildByName\<close> and \<open>Children\<close> are promoted to it: every object of the tree
  is a \<open>Parent\<close>.
\<close>

fun implements_Parent :: "object \<Rightarrow> bool" where
  "implements_Parent The_Root = True"
| "implements_Parent (LibraryPtr l) = True"
| "implements_Parent (FolderPtr f) = True"
| "implements_Parent (DocumentPtr d) = True"

text \<open>
  The collection \<open>p.ChildByName\<close> and \<open>p.Children\<close> read: for a document, through the
  promoted methods, the one of the folder it is in.
\<close>

fun Parent_objects :: "world \<Rightarrow> object \<Rightarrow> objects" where
  "Parent_objects w The_Root = root_objects w"
| "Parent_objects w (LibraryPtr l) = lib_folders (lib_heap w l)"
| "Parent_objects w (FolderPtr f) = fld_objects (fld_heap w f)"
| "Parent_objects w (DocumentPtr d) = fld_objects (fld_heap w (doc_Folder (doc_heap w d)))"

fun type_name :: "object \<Rightarrow> string" where
  "type_name The_Root = ''*main.Root''"
| "type_name (LibraryPtr l) = ''*main.Library''"
| "type_name (FolderPtr f) = ''*main.Folder''"
| "type_name (DocumentPtr d) = ''*main.Document''"

text \<open>
  One turn of the loop of \<open>ObjectByPath\<close>: the object \<open>part\<close> names under \<open>obj\<close>, or the
  error the function returns with.
\<close>

definition ObjectByPath_step ::
  "remote \<Rightarrow> world \<Rightarrow> object \<Rightarrow> string \<Rightarrow> ((error + object) \<times> world) outcome" where
  "ObjectByPath_step rm w obj part =
     (if \<not> implements_Parent obj
      then Return (Inl (Errorf ''expected folder or library, not %T'' [type_name obj]), w)
      else
        (case ChildByName (Parent_objects w obj) part of
           Panicked e \<Rightarrow> Panicked e
         | Return (Some c) \<Rightarrow> Return (Inr c, w)
         | Return None \<Rightarrow>
             (case update rm w obj of
                Panicked e \<Rightarrow> Panicked e
              | Return (Some err, w) \<Rightarrow> Return (Inl err, w)
              | Return (None, w) \<Rightarrow>
                  (case ChildByName (Parent_objects w obj) part of
                     Panicked e \<Rightarrow> Panicked e
                   | Return (Some c) \<Rightarrow> Return (Inr c, w)
                   | Return None \<Rightarrow> Return (Inl (ChildNotFound part 0), w)))))"

fun ObjectByPath_loop ::
  "remote \<Rightarrow> world \<Rightarrow> object \<Rightarrow> string list \<Rightarrow> ((error + object) \<times> world) outcome" where
  "ObjectByPath_loop rm w obj [] = Return (Inr obj, w)"
| "ObjectByPath_loop rm w obj (part # path) =
     (case ObjectByPath_step rm w obj part of
        Panicked e \<Rightarrow> Panicked e
      | Return (Inl err, w) \<Rightarrow> Return (Inl err, w)
      | Return (Inr c, w) \<Rightarrow> ObjectByPath_loop rm w c path)"

text \<open>\<open>ObjectByPath\<close>: a nil \<open>origin\<close> is the root.\<close>

definition ObjectByPath ::
  "remote \<Rightarrow> world \<Rightarrow> object option \<Rightarrow> string list \<Rightarrow> ((error + object) \<times> world) outcome" where
  "ObjectByPath rm w origin path =
     ObjectByPath_loop rm w (case origin of None \<Rightarrow> The_Root | Some p \<Rightarrow> p) path"

section \<open>Package web: the pool of clients\<close>

definition PhoenixTokenPrefix :: string where
  "PhoenixTokenPrefix = ''PHOENIX-TOKEN ''"

text \<open>
  A \<open>Client\<close>.  The \<open>url.URL\<close> in \<open>DataCenter\<close> is kept as the string its \<open>String\<close>
  method gives.
\<close>

record Client =
  DataCenter :: string
  phoenixToken :: string
  numRequests :: nat

type_synonym clientPoolKey = "string \<times> string"

record clientSubPool =
  clients :: "addr list"
  cache :: "nat list"
  inuse :: "addr \<rightharpoonup> nat"

text \<open>
  The pool: the sub-pools by key, and the heap of the clients \<open>NewClient\<close> has
  allocated with the next address to hand out.
\<close>

record ClientPool =
  subPools :: "clientPoolKey \<rightharpoonup> clientSubPool"
  client_heap :: "addr \<Rightarrow> Client"
  next_client :: addr

definition NewClientPool :: ClientPool where
  "NewClientPool =
     \<lparr>subPools = Map.empty,
      client_heap = (\<lambda>a. \<lparr>DataCenter = [], phoenixToken = [], numRequests = 0\<rparr>),
      next_client = 0\<rparr>"

definition newClientSubPool :: clientSubPool where
  "newClientSubPool = \<lparr>clients = [], cache = [], inuse = Map.empty\<rparr>"

definition stringNotEmpty :: "string \<Rightarrow> string \<Rightarrow> error option" where
  "stringNotEmpty v name = (if length v = 0 then Some (Errorf ''%q cannot be empty'' [name]) else None)"

text \<open>
  \<open>NewClient\<close>.  \<open>parse\<close> stands for \<open>url.Parse\<close> followed by \<open>String\<close>: the
  string form of the parsed url, or the error of the parser.
\<close>

definition NewClient ::
  "(string \<Rightarrow> error + string) \<Rightarrow> ClientPool \<Rightarrow> string \<Rightarrow> string \<Rightarrow> (error + addr) \<times> ClientPool" where
  "NewClient parse p dataCenter token =
     (case stringNotEmpty dataCenter ''dataCenter'' of
        Some err \<Rightarrow> (Inl err, p)
      | None \<Rightarrow>
         (case stringNotEmpty token ''token'' of
            Some err \<Rightarrow> (Inl err, p)
          | None \<Rightarrow>
             (case parse dataCenter of
                Inl err \<Rightarrow>
                  (Inl (ErrorfWithCause err ''failed to parse %q as URL: %v'' [dataCenter]), p)
              | Inr u \<Rightarrow>
                  (let a = next_client p in
                   (Inr a,
                    p\<lparr>client_heap := (client_heap p)
                         (a := \<lparr>DataCenter = u, phoenixToken = PhoenixTokenPrefix @ token,
                                numRequests = 0\<rparr>),
                      next_client := Suc a\<rparr>)))))"

definition getOrCreateSubPool :: "ClientPool \<Rightarrow> clientPoolKey \<Rightarrow> clientSubPool \<times> ClientPool" where
  "getOrCreateSubPool p k =
     (case subPools p k of
        Some sp \<Rightarrow> (sp, p)
      | None \<Rightarrow> (newClientSubPool, p\<lparr>subPools := (subPools p)(k \<mapsto> newClientSubPool)\<rparr>))"

text \<open>\<open>getClient\<close> returns \<open>(client, true)\<close> as \<open>Some client\<close> and \<open>(nil, false)\<close> as \<open>None\<close>.\<close>

definition getClient :: "clientSubPool \<Rightarrow> (addr option \<times> clientSubPool) outcome" where
  "getClient sp =
     (let len = length (cache sp) in
      if len = 0 then Return (None, sp)
      else
        let ix = cache sp ! (len - 1);
            sp = sp\<lparr>cache := take (len - 1) (cache sp)\<rparr>
        in case index (clients sp) ix of
             Panicked e \<Rightarrow> Panicked e
           | Return client \<Rightarrow> Return (Some client, sp\<lparr>inuse := (inuse sp)(client \<mapsto> ix)\<rparr>))"

definition cacheClient :: "clientSubPool \<Rightarrow> addr \<Rightarrow> clientSubPool" where
  "cacheClient sp c =
     (let (ix, sp) =
            (case inuse sp c of
               Some i \<Rightarrow> (i, sp)
             | None \<Rightarrow> (length (clients sp), sp\<lparr>clients := clients sp @ [c]\<rparr>))
      in sp\<lparr>inuse := (inuse sp)(c := None), cache := cache sp @ [ix]\<rparr>)"

text \<open>\<open>ClientPool.Client\<close>; the mutex is held for the whole call.\<close>

definition ClientPool_Client ::
  "(string \<Rightarrow> error + string) \<Rightarrow> ClientPool \<Rightarrow> string \<Rightarrow> string
    \<Rightarrow> ((error + addr) \<times> ClientPool) outcome" where
  "ClientPool_Client parse p dataCenter token =
     (let (sp, p) = getOrCreateSubPool p (dataCenter, token) in
      case getClient sp of
        Panicked e \<Rightarrow> Panicked e
      | Return (Some c, sp) \<Rightarrow>
          Return (Inr c, p\<lparr>subPools := (subPools p)((dataCenter, token) \<mapsto> sp)\<rparr>)
      | Return (None, sp) \<Rightarrow> Return (NewClient parse p dataCenter token))"

text \<open>
  \<open>ClientPool.Cache\<close>.  The token of the key is
  \<open>c.phoenixToken[len(PhoenixTokenPrefix)+1:]\<close>; the slice expression panics when
  the string is shorter than that.
\<close>

definition ClientPool_Cache :: "ClientPool \<Rightarrow> addr \<Rightarrow> ClientPool outcome" where
  "ClientPool_Cache p c =
     (let cl = client_heap p c in
      if length (phoenixToken cl) < length PhoenixTokenPrefix + 1
      then Panicked SliceBoundsOutOfRange
      else
        let key = (DataCenter cl, drop (length PhoenixTokenPrefix + 1) (phoenixToken cl));
            (sp, p) = getOrCreateSubPool p key
        in Return (p\<lparr>subPools := (subPools p)(key \<mapsto> cacheClient sp c)\<rparr>))"

section \<open>Package web: uploading a large document (\<open>web/models.go\<close>)\<close>

type_synonym byte = "8 word"

definition K :: nat where
  "K = 2 ^ 10"

definition PatchSize :: nat where
  "PatchSize = 512 * K"

record NewLargeDocumentResponse =
  Location :: string
  Identifier :: string
  FileName :: string
  CurrentSize :: "64 word"
  VolumeID :: int

definition zero_NewLargeDocumentResponse :: NewLargeDocumentResponse where
  "zero_NewLargeDocumentResponse =
     \<lparr>Location = [], Identifier = [], FileName = [], CurrentSize = 0, VolumeID = 0\<rparr>"

text \<open>
  The requests of an upload: the POST that asks for a temporary file, a PATCH with its
  body, and the POST that turns the temporary file into a document (with the
  \<open>x-sharebase-fileref\<close> header).
\<close>

datatype upload_request =
    CreateTemp string
  | Patch string "byte list"
  | Finalize string NewLargeDocumentResponse

text \<open>
  What \<open>Client.request\<close> comes back with: an error, after the transport has read some
  bytes of the body, or the body of a 2xx response, after it has read all of them.
\<close>

datatype http_reply = RequestFailed error nat | Body "byte list"

text \<open>
  The surroundings of an upload: the remote service, whose answer may depend on the
  requests before, and \<open>json.Unmarshal\<close> into a \<open>NewLargeDocumentResponse\<close>, which
  gives the struct as it has become and the error, if any.
\<close>

record upload_env =
  http :: "upload_request list \<Rightarrow> upload_request \<Rightarrow> http_reply"
  unmarshal :: "byte list \<Rightarrow> NewLargeDocumentResponse \<Rightarrow> error option \<times> NewLargeDocumentResponse"
  unmarshal_Document :: "byte list \<Rightarrow> error option"

text \<open>
  A \<open>DocumentWriter\<close>: the link to the documents of its folder, the embedded response,
  the two buffers (a \<open>bytes.Buffer\<close> is the bytes not read yet), and the requests its
  client has issued.
\<close>

record DocumentWriter =
  Links_Documents :: string
  resp :: NewLargeDocumentResponse
  dataBuffer :: "byte list"
  jsonBuffer :: "byte list"
  issued :: "upload_request list"

definition createNewLargeDocument ::
  "upload_env \<Rightarrow> upload_request list \<Rightarrow> string \<Rightarrow> string
    \<Rightarrow> (error option \<times> NewLargeDocumentResponse) \<times> upload_request list" where
  "createNewLargeDocument env reqs self name =
     (let req = CreateTemp (self @ ''/temp?filename='' @ name) in
      case http env reqs req of
        RequestFailed err k \<Rightarrow> ((Some err, zero_NewLargeDocumentResponse), reqs @ [req])
      | Body bs \<Rightarrow> (unmarshal env bs zero_NewLargeDocumentResponse, reqs @ [req]))"

text \<open>\<open>Folder.DocumentWriter\<close>, for the folder with the links \<open>self\<close> and \<open>documents\<close>.\<close>

definition new_DocumentWriter ::
  "upload_env \<Rightarrow> upload_request list \<Rightarrow> string \<Rightarrow> string \<Rightarrow> string
    \<Rightarrow> (error + DocumentWriter) \<times> upload_request list" where
  "new_DocumentWriter env reqs self documents name =
     (case createNewLargeDocument env reqs self name of
        ((Some err, r), reqs) \<Rightarrow> (Inl err, reqs)
      | ((None, r), reqs) \<Rightarrow>
          (Inr \<lparr>Links_Documents = documents, resp = r, dataBuffer = [], jsonBuffer = [],
                issued = reqs\<rparr>, reqs))"

definition available :: "DocumentWriter \<Rightarrow> int outcome" where
  "available w =
     (let len = length (dataBuffer w);
          a = int PatchSize - int len
      in if a < 0
         then Panicked (ExplicitPanic ''%T data buffer larger than patch size (%d)'')
         else Return a)"

definition patch :: "upload_env \<Rightarrow> DocumentWriter \<Rightarrow> error option \<times> DocumentWriter" where
  "patch env w =
     (let req = Patch (Location (resp w)) (dataBuffer w);
          reply = http env (issued w) req;
          w = w\<lparr>issued := issued w @ [req]\<rparr>
      in case reply of
           RequestFailed err k \<Rightarrow>
             (Some (ErrorfWithCause err ''failed to patch document %q: %v'' [FileName (resp w)]),
              w\<lparr>dataBuffer := drop k (dataBuffer w)\<rparr>)
         | Body bs \<Rightarrow>
             (let w = w\<lparr>dataBuffer := [], jsonBuffer := jsonBuffer w @ bs\<rparr>;
                  (uerr, r) = unmarshal env (jsonBuffer w) (resp w);
                  w = w\<lparr>resp := r\<rparr>
              in case uerr of
                   Some err \<Rightarrow>
                     (Some (ErrorfWithCause err ''failed to unmarshal updated upload info: %v'' []), w)
                 | None \<Rightarrow>
                     if CurrentSize (resp w) = 0
                     then (Some (Errorf ''Last patch of document %q uploaded nothing.''
                                   [FileName (resp w)]), w)
                     else (None, w\<lparr>jsonBuffer := []\<rparr>)))"

text \<open>
  The loop of \<open>Write\<close> for the case that \<open>p\<close> does not fit into the buffer;
  \<open>len_p\<close> is \<open>len(p)\<close>, returned when the loop ends.
\<close>

function Write_loop ::
  "upload_env \<Rightarrow> DocumentWriter \<Rightarrow> byte list \<Rightarrow> nat
    \<Rightarrow> ((nat \<times> error option) \<times> DocumentWriter) outcome" where
  "Write_loop env w remaining len_p =
     (if length remaining > 0 then
        (case available w of
           Panicked e \<Rightarrow> Panicked e
         | Return a \<Rightarrow>
             (let limit = (if a > int (length remaining) then length remaining else nat a);
                  w1 = w\<lparr>dataBuffer := dataBuffer w @ take limit remaining\<rparr>;
                  n = limit
              in case patch env w1 of
                   (Some err, w2) \<Rightarrow> Return ((n, Some err), w2)
                 | (None, w2) \<Rightarrow> Write_loop env w2 (drop n remaining) len_p))
      else Return ((len_p, None), w))"
  by pat_completeness auto

termination Write_loop
proof (relation "measure (\<lambda>(env, w, remaining, len_p).
         2 * length remaining + (if PatchSize \<le> length (dataBuffer w) then 1 else 0))",
       goal_cases)
  case 1
  show ?case by simp
next
  case (2 env w remaining len_p a limit w1 n x y)
  have drained: "dataBuffer v = []" if "patch env u = (None, v)" for u v
    using that
    by (auto simp: patch_def Let_def split: http_reply.splits prod.splits option.splits if_splits)
  have "dataBuffer y = []"
    using 2 by (metis drained)
  moreover have "0 < PatchSize"
    by (simp add: PatchSize_def K_def)
  ultimately show ?case
    using 2 by (auto simp: available_def Let_def split: if_splits)
qed

definition Write ::
  "upload_env \<Rightarrow> DocumentWriter \<Rightarrow> byte list
    \<Rightarrow> ((nat \<times> error option) \<times> DocumentWriter) outcome" where
  "Write env w p =
     (case available w of
        Panicked e \<Rightarrow> Panicked e
      | Return a \<Rightarrow>
          if a \<ge> int (length p)
          then Return ((length p, None), w\<lparr>dataBuffer := dataBuffer w @ p\<rparr>)
          else Write_loop env w p (length p))"

definition Close :: "upload_env \<Rightarrow> DocumentWriter \<Rightarrow> error option \<times> DocumentWriter" where
  "Close env w =
     (case (if length (dataBuffer w) > 0 then patch env w else (None, w)) of
        (Some err, w) \<Rightarrow> (Some err, w)
      | (None, w) \<Rightarrow>
          (let req = Finalize (Links_Documents w) (resp w) in
           (case http env (issued w) req of
              RequestFailed err k \<Rightarrow> Some err
            | Body bs \<Rightarrow> None,
            w\<lparr>issued := issued w @ [req]\<rparr>)))"

text \<open>
  What \<open>io.Copy\<close> into a \<open>DocumentWriter\<close> does with the chunks it reads (\<open>Main\<close> in
  \<open>sb/main.go\<close>): one \<open>Write\<close> for each, until one fails.
\<close>

fun Write_all ::
  "upload_env \<Rightarrow> DocumentWriter \<Rightarrow> byte list list \<Rightarrow> (error option \<times> DocumentWriter) outcome" where
  "Write_all env w [] = Return (None, w)"
| "Write_all env w (p # ps) =
     (case Write env w p of
        Panicked e \<Rightarrow> Panicked e
      | Return ((n, Some err), w) \<Rightarrow> Return (Some err, w)
      | Return ((n, None), w) \<Rightarrow> Write_all env w ps)"

text \<open>
  The loop of \<open>newLargeDocument\<close>.  \<open>content\<close> is what the reader still has to give (a
  reader that does not fail).  Both buffers are empty whenever the loop starts over:
  the request has read \<open>dataBuffer\<close> and \<open>jsonBuffer\<close> has been reset; so the body
  of the PATCH is the chunk copied, and the bytes unmarshalled are those of the response.
\<close>

function newLargeDocument_loop ::
  "upload_env \<Rightarrow> string \<Rightarrow> string \<Rightarrow> NewLargeDocumentResponse \<Rightarrow> byte list
    \<Rightarrow> upload_request list \<Rightarrow> error option \<times> upload_request list" where
  "newLargeDocument_loop env location name cur content reqs =
     (let chunk = take PatchSize content;
          w = length chunk
      in if w = 0 then (None, reqs)
         else
           let req = Patch location chunk in
           case http env reqs req of
             RequestFailed err k \<Rightarrow>
               (Some (ErrorfWithCause err ''failed to patch document %q: %v'' [name]),
                reqs @ [req])
           | Body bs \<Rightarrow>
               (case unmarshal env bs cur of
                  (Some err, cur) \<Rightarrow>
                    (Some (ErrorfWithCause err ''failed to unmarshal updated upload info: %v'' []),
                     reqs @ [req])
                | (None, cur) \<Rightarrow>
                    if CurrentSize cur = 0
                    then (Some (Errorf ''Last patch of document %q uploaded nothing.'' [name]),
                          reqs @ [req])
                    else newLargeDocument_loop env location name cur
                           (drop PatchSize content) (reqs @ [req])))"
  by pat_completeness auto

termination newLargeDocument_loop
proof (relation "measure (\<lambda>(env, location, name, cur, content, reqs). length content)",
       goal_cases)
  case 1
  show ?case by simp
next
  case (2 env location name cur content reqs chunk w req bs x cur')
  have "0 < PatchSize"
    by (simp add: PatchSize_def K_def)
  then show ?case
    using 2 by auto
qed

definition newLargeDocument ::
  "upload_env \<Rightarrow> upload_request list \<Rightarrow> string \<Rightarrow> string \<Rightarrow> string \<Rightarrow> byte list
    \<Rightarrow> error option \<times> upload_request list" where
  "newLargeDocument env reqs self documents name content =
     (case createNewLargeDocument env reqs self name of
        ((Some err, res), reqs) \<Rightarrow>
          (Some (ErrorfWithCause err ''failed to create new document request: %v'' []), reqs)
      | ((None, res), reqs) \<Rightarrow>
          (case newLargeDocument_loop env (Location res) name res content reqs of
             (Some err, reqs) \<Rightarrow> (Some err, reqs)
           | (None, reqs) \<Rightarrow>
               (let req = Finalize documents res in
                (case http env reqs req of
                   RequestFailed err k \<Rightarrow> Some err
                 | Body bs \<Rightarrow> unmarshal_Document env bs,
                 reqs @ [req]))))"

declare Write_loop.simps [simp del]

declare newLargeDocument_loop.simps [simp del]

subsection \<open>Counting the flushes of an upload\<close>

text \<open>The bodies of the PATCH requests among the requests issued, in order.\<close>

fun patch_bodies :: "upload_request list \<Rightarrow> byte list list" where
  "patch_bodies [] = []"
| "patch_bodies (Patch loc body # rs) = body # patch_bodies rs"
| "patch_bodies (r # rs) = patch_bodies rs"





text \<open>Every PATCH among the requests has a body that is not empty and fits a patch.\<close>

definition bodies_ok :: "upload_request list \<Rightarrow> bool" where
  "bodies_ok new \<longleftrightarrow> list_all (\<lambda>b. b \<noteq> [] \<and> length b \<le> PatchSize) (patch_bodies new)"

subsection \<open>Sequences of refreshes\<close>

text \<open>
  Refreshes one after the other: \<open>p.update(r, c)\<close> for each \<open>p\<close> in turn, whether or
  not it returns an error.
\<close>

fun refreshes :: "remote \<Rightarrow> world \<Rightarrow> object list \<Rightarrow> world outcome" where
  "refreshes rm w [] = Return w"
| "refreshes rm w (p # ps) =
     (case update rm w p of
        Panicked e \<Rightarrow> Panicked e
      | Return (err, w) \<Rightarrow> refreshes rm w ps)"

text \<open>
  A remote service that answers the requests it gets with the responses of a script,
  in order, and listings that carry an id and a name and are empty otherwise.
\<close>

definition scripted :: "response list \<Rightarrow> remote" where
  "scripted rs hist req =
     (if length hist < length rs then rs ! length hist else Failed (ExternalError ''EOF''))"

definition library_named :: "int \<Rightarrow> string \<Rightarrow> web_Library" where
  "library_named i n = zero_web_Library\<lparr>LibraryID := i, LibraryName := n\<rparr>"

definition folder_named :: "int \<Rightarrow> string \<Rightarrow> web_Folder" where
  "folder_named i n =
     web_Folder i n 0 \<lparr>fl_Self = [], fl_Folders = [], fl_Documents = [], fl_Shares = []\<rparr>
       (FolderEmbedded [] [])"

definition document_named :: "int \<Rightarrow> string \<Rightarrow> web_Document" where
  "document_named i n = zero_web_Document\<lparr>DocumentID := i, DocumentName := n\<rparr>"

definition folder_holding :: "int \<Rightarrow> string \<Rightarrow> web_Document list \<Rightarrow> web_Folder list \<Rightarrow> web_Folder" where
  "folder_holding i n wds wfs =
     web_Folder i n 0 \<lparr>fl_Self = [], fl_Folders = [], fl_Documents = [], fl_Shares = []\<rparr>
       (FolderEmbedded wds wfs)"

subsection \<open>What a merge builds\<close>

text \<open>
  \<open>objects.add\<close> with the id and the name it reads from the child given as they are
  at that moment.
\<close>

definition insert_child :: "objects \<Rightarrow> int \<times> string \<times> object \<Rightarrow> objects" where
  "insert_child obs e =
     (case e of (cid, name, c) \<Rightarrow>
        if ids obs cid \<noteq> None \<or> names obs name \<noteq> None then obs
        else obs\<lparr>children := children obs @ [c],
                 ids := (ids obs)(cid \<mapsto> length (children obs)),
                 names := (names obs)(name \<mapsto> length (children obs))\<rparr>)"

text \<open>The object the identity registry holds for an id, by kind.\<close>

definition Library_of :: "world \<Rightarrow> int \<Rightarrow> addr option" where
  "Library_of w i = lfd_Library (lookup_lfd (idCache w) i)"

definition Folder_of :: "world \<Rightarrow> int \<Rightarrow> addr option" where
  "Folder_of w i = lfd_Folder (lookup_lfd (idCache w) i)"

definition Document_of :: "world \<Rightarrow> int \<Rightarrow> addr option" where
  "Document_of w i = lfd_Document (lookup_lfd (idCache w) i)"

text \<open>No object the registry holds in \<open>w\<close> is replaced or forgotten in \<open>w'\<close>.\<close>

definition registry_le :: "world \<Rightarrow> world \<Rightarrow> bool" where
  "registry_le w w' \<longleftrightarrow>
     (\<forall>i a. Library_of w i = Some a \<longrightarrow> Library_of w' i = Some a)
     \<and> (\<forall>i a. Folder_of w i = Some a \<longrightarrow> Folder_of w' i = Some a)
     \<and> (\<forall>i a. Document_of w i = Some a \<longrightarrow> Document_of w' i = Some a)"

text \<open>A fetched descriptor with the object the registry holds for it.\<close>

definition library_entry :: "world \<Rightarrow> web_Library \<Rightarrow> int \<times> string \<times> object" where
  "library_entry w wl = (LibraryID wl, LibraryName wl, LibraryPtr (the (Library_of w (LibraryID wl))))"

definition folder_entry :: "world \<Rightarrow> web_Folder \<Rightarrow> int \<times> string \<times> object" where
  "folder_entry w wfld = (FolderID wfld, FolderName wfld, FolderPtr (the (Folder_of w (FolderID wfld))))"

definition document_entry :: "world \<Rightarrow> web_Document \<Rightarrow> int \<times> string \<times> object" where
  "document_entry w wd =
     (DocumentID wd, DocumentName wd, DocumentPtr (the (Document_of w (DocumentID wd))))"

subsection \<open>Trees built by refreshes\<close>

text \<open>
  An object is registered when the identity registry holds it under the id it carries.
\<close>

fun registered :: "world \<Rightarrow> object \<Rightarrow> bool" where
  "registered w The_Root = True"
| "registered w (LibraryPtr a) = (Library_of w (LibraryID (lib_web (lib_heap w a))) = Some a)"
| "registered w (FolderPtr a) = (Folder_of w (FolderID (fld_web (fld_heap w a))) = Some a)"
| "registered w (DocumentPtr a) = (Document_of w (DocumentID (doc_web (doc_heap w a))) = Some a)"

text \<open>
  What holds of a tree that refreshes have built from a new root.  An object the registry
  holds has been allocated and carries the id it is held under, so that no object is
  held under two ids of its kind (\<open>keys_ok\<close>); a library or a document in \<open>missing\<close> is
  the one the registry holds for that id (\<open>missing_ok\<close>); and every child of every
  collection is registered (\<open>children_ok\<close>).
\<close>

definition keys_ok :: "world \<Rightarrow> bool" where
  "keys_ok w \<longleftrightarrow>
     (\<forall>i a. Library_of w i = Some a \<longrightarrow>
        a < next_addr w \<and> LibraryID (lib_web (lib_heap w a)) = i)
     \<and> (\<forall>i a. Folder_of w i = Some a \<longrightarrow>
        a < next_addr w \<and> FolderID (fld_web (fld_heap w a)) = i)
     \<and> (\<forall>i a. Document_of w i = Some a \<longrightarrow>
        a < next_addr w \<and> DocumentID (doc_web (doc_heap w a)) = i)"

definition missing_ok :: "world \<Rightarrow> bool" where
  "missing_ok w \<longleftrightarrow>
     (\<forall>i a. lfd_Library (lookup_lfd (missing w) i) = Some a \<longrightarrow> Library_of w i = Some a)
     \<and> (\<forall>i a. lfd_Document (lookup_lfd (missing w) i) = Some a \<longrightarrow> Document_of w i = Some a)"

definition children_ok :: "world \<Rightarrow> bool" where
  "children_ok w \<longleftrightarrow>
     (\<forall>c \<in> set (children (root_objects w)). registered w c)
     \<and> (\<forall>l. \<forall>c \<in> set (children (lib_folders (lib_heap w l))). registered w c)
     \<and> (\<forall>f. \<forall>c \<in> set (children (fld_objects (fld_heap w f))). registered w c)"

definition registry_ok :: "world \<Rightarrow> bool" where
  "registry_ok w \<longleftrightarrow> keys_ok w \<and> missing_ok w \<and> children_ok w"

section \<open>Properties\<close>

subsection \<open>The by-name lookup of package fs\<close>

text \<open>
  Claim C9, as far as the code goes: \<open>EntryByName\<close> has its two branches the wrong
  way round.  For a name that is in the name index it returns \<open>(nil, false)\<close>.  For
  a name that is not, it reads \<open>e.items[0]\<close>: it returns the first item with \<open>true\<close>
  when there is one, and panics with an index out of range when the collection is empty.
\<close>

theorem EntryByName_inverted:
  "EntryByName e name =
     (if entry_names e name = None
      then (if items e = [] then Panicked IndexOutOfRange
            else Return (Some (hd (items e)), True))
      else Return (None, False))"
  by (auto simp: EntryByName_def comma_ok_def index_def hd_conv_nth split: option.splits)

text \<open>
  Claim C9 as it is written says that \<open>(entry, true)\<close> is returned exactly when the
  name is absent.  In an empty collection the name is absent and nothing is returned.
\<close>

theorem EntryByName_absent_empty_panics:
  "entry_names \<lparr>items = ([] :: nat list), entry_names = Map.empty, entry_ids = Map.empty\<rparr>
      (DocumentName_fs ''a'') = None
   \<and> EntryByName \<lparr>items = ([] :: nat list), entry_names = Map.empty, entry_ids = Map.empty\<rparr>
        (DocumentName_fs ''a'') = Panicked IndexOutOfRange"
  by (simp add: EntryByName_def comma_ok_def index_def)

subsection \<open>Removal from an objects collection\<close>

text \<open>
  Claim C8 at a collection of three documents \<open>a\<close>, \<open>b\<close>, \<open>c\<close> with the ids 1, 2, 3,
  built with \<open>add\<close>: \<open>del\<close> of the first one reports success, and leaves the children
  \<open>[b, c, c]\<close>; id 1 and name \<open>a\<close> of the removed child are still found, and give
  \<open>b\<close>; the remaining child \<open>c\<close> is found neither by its id nor by its name.
\<close>

theorem del_interior_child_breaks_index:
  "(let w = NewRoot\<lparr>doc_heap := (doc_heap NewRoot)
               (0 := \<lparr>doc_Folder = 0,
                      doc_web = zero_web_Document\<lparr>DocumentID := 1, DocumentName := ''a''\<rparr>\<rparr>,
                1 := \<lparr>doc_Folder = 0,
                      doc_web = zero_web_Document\<lparr>DocumentID := 2, DocumentName := ''b''\<rparr>\<rparr>,
                2 := \<lparr>doc_Folder = 0,
                      doc_web = zero_web_Document\<lparr>DocumentID := 3, DocumentName := ''c''\<rparr>\<rparr>)\<rparr>;
        obs = fst (add w (fst (add w (fst (add w (init 3) (DocumentPtr 0))) (DocumentPtr 1)))
                     (DocumentPtr 2))
    in children obs = [DocumentPtr 0, DocumentPtr 1, DocumentPtr 2]
     \<and> (case del w obs (DocumentPtr 0) of
          Return (obs', deleted) \<Rightarrow>
            deleted
            \<and> children obs' = [DocumentPtr 1, DocumentPtr 2, DocumentPtr 2]
            \<and> ChildByID obs' 1 = Return (Some (DocumentPtr 1))
            \<and> ChildByName obs' ''a'' = Return (Some (DocumentPtr 1))
            \<and> ChildByID obs' 3 = Return None
            \<and> ChildByName obs' ''c'' = Return None
        | Panicked e \<Rightarrow> False))"
  by (simp add: del_def add_def init_def comma_ok_def index_def ChildByID_def ChildByName_def
        NewRoot_def zero_web_Document_def Let_def)

subsection \<open>A refresh whose fetch fails\<close>

lemma Libraries_sent:
  "Libraries rm w = (res, w') \<Longrightarrow> w' = w\<lparr>sent := sent w @ [GetLibraries]\<rparr>"
  by (auto simp: Libraries_def do_request_def split: response.splits)

lemma web_Library_Folders_sent:
  "web_Library_Folders rm w lib = (res, w') \<Longrightarrow>
     w' = w\<lparr>sent := sent w @ [GetLibraryFolders (lib_Links_Folders lib)]\<rparr>"
  by (auto simp: web_Library_Folders_def do_request_def split: response.splits)

lemma folder_by_id_sent:
  "folder_by_id rm w link fid = (res, w') \<Longrightarrow> w' = w\<lparr>sent := sent w @ [GetFolder link fid]\<rparr>"
  by (auto simp: folder_by_id_def do_request_def split: response.splits error.splits)

text \<open>
  Claim C3: when the fetch of a refresh returns an error, the refresh returns that
  error, and the world it leaves differs from the one before in nothing but the
  request the client has issued: the collections of children, the registries and the
  objects are as they were.  This holds for the refresh of the root, of a library, and
  of a folder in a library or in a folder.
\<close>

theorem refresh_failure_leaves_tree:
  "(Libraries rm w = (Inl e1, w1) \<longrightarrow>
      Root_update rm w = Return (Some e1, w1) \<and> w1 = w\<lparr>sent := sent w1\<rparr>)
   \<and> (web_Library_Folders rm w (lib_web (lib_heap w l)) = (Inl e2, w2) \<longrightarrow>
      Library_update rm w l = Return (Some e2, w2) \<and> w2 = w\<lparr>sent := sent w2\<rparr>)
   \<and> (DotDot (fld_heap w f) = LibraryPtr l' \<and>
       web_Library_Folder rm w (lib_web (lib_heap w l')) (FolderID (fld_web (fld_heap w f)))
         = (Inl e3, w3) \<longrightarrow>
      Folder_update rm w f = Return (Some e3, w3) \<and> w3 = w\<lparr>sent := sent w3\<rparr>)
   \<and> (DotDot (fld_heap w f') = FolderPtr g \<and>
       web_Folder_Folder rm w (fld_web (fld_heap w g)) (FolderID (fld_web (fld_heap w f')))
         = (Inl e4, w4) \<longrightarrow>
      Folder_update rm w f' = Return (Some e4, w4) \<and> w4 = w\<lparr>sent := sent w4\<rparr>)"
proof (intro conjI impI)
  assume a: "Libraries rm w = (Inl e1, w1)"
  then show "Root_update rm w = Return (Some e1, w1)"
    by (simp add: Root_update_def)
  from a show "w1 = w\<lparr>sent := sent w1\<rparr>"
    by (auto dest: Libraries_sent)
next
  assume a: "web_Library_Folders rm w (lib_web (lib_heap w l)) = (Inl e2, w2)"
  then show "Library_update rm w l = Return (Some e2, w2)"
    by (simp add: Library_update_def)
  from a show "w2 = w\<lparr>sent := sent w2\<rparr>"
    by (auto dest: web_Library_Folders_sent)
next
  assume a: "DotDot (fld_heap w f) = LibraryPtr l' \<and>
       web_Library_Folder rm w (lib_web (lib_heap w l')) (FolderID (fld_web (fld_heap w f)))
         = (Inl e3, w3)"
  then show "Folder_update rm w f = Return (Some e3, w3)"
    by (simp add: Folder_update_def)
  from a show "w3 = w\<lparr>sent := sent w3\<rparr>"
    by (auto simp: web_Library_Folder_def dest: folder_by_id_sent)
next
  assume a: "DotDot (fld_heap w f') = FolderPtr g \<and>
       web_Folder_Folder rm w (fld_web (fld_heap w g)) (FolderID (fld_web (fld_heap w f')))
         = (Inl e4, w4)"
  then show "Folder_update rm w f' = Return (Some e4, w4)"
    by (simp add: Folder_update_def)
  from a show "w4 = w\<lparr>sent := sent w4\<rparr>"
    by (auto simp: web_Folder_Folder_def dest: folder_by_id_sent)
qed

theorem refresh_failure_leaves_tree_witness:
  "(let rm = (\<lambda>h r. Failed (statusError 500 ''down''));
        w = NewRoot\<lparr>fld_heap := (fld_heap NewRoot)
              (0 := (fld_heap NewRoot 0)\<lparr>DotDot := LibraryPtr 0\<rparr>,
               1 := (fld_heap NewRoot 1)\<lparr>DotDot := FolderPtr 0\<rparr>)\<rparr>
    in Libraries rm w = (Inl (statusError 500 ''down''), w\<lparr>sent := [GetLibraries]\<rparr>)
     \<and> Root_update rm w = Return (Some (statusError 500 ''down''), w\<lparr>sent := [GetLibraries]\<rparr>)
     \<and> web_Library_Folders rm w (lib_web (lib_heap w 0))
         = (Inl (statusError 500 ''down''), w\<lparr>sent := [GetLibraryFolders []]\<rparr>)
     \<and> Library_update rm w 0
         = Return (Some (statusError 500 ''down''), w\<lparr>sent := [GetLibraryFolders []]\<rparr>)
     \<and> DotDot (fld_heap w 0) = LibraryPtr 0
     \<and> web_Library_Folder rm w (lib_web (lib_heap w 0)) (FolderID (fld_web (fld_heap w 0)))
         = (Inl (statusError 500 ''down''), w\<lparr>sent := [GetFolder [] 0]\<rparr>)
     \<and> Folder_update rm w 0
         = Return (Some (statusError 500 ''down''), w\<lparr>sent := [GetFolder [] 0]\<rparr>)
     \<and> DotDot (fld_heap w 1) = FolderPtr 0
     \<and> web_Folder_Folder rm w (fld_web (fld_heap w 0)) (FolderID (fld_web (fld_heap w 1)))
         = (Inl (statusError 500 ''down''), w\<lparr>sent := [GetFolder [] 0]\<rparr>)
     \<and> Folder_update rm w 1
         = Return (Some (statusError 500 ''down''), w\<lparr>sent := [GetFolder [] 0]\<rparr>))"
proof -
  define rm :: remote where "rm = (\<lambda>h r. Failed (statusError 500 ''down''))"
  define w where "w = NewRoot\<lparr>fld_heap := (fld_heap NewRoot)
              (0 := (fld_heap NewRoot 0)\<lparr>DotDot := LibraryPtr 0\<rparr>,
               1 := (fld_heap NewRoot 1)\<lparr>DotDot := FolderPtr 0\<rparr>)\<rparr>"
  have s: "sent w = []" by (simp add: w_def NewRoot_def)
  have h1: "Libraries rm w = (Inl (statusError 500 ''down''), w\<lparr>sent := [GetLibraries]\<rparr>)"
    by (simp add: Libraries_def do_request_def rm_def s)
  have h2: "web_Library_Folders rm w (lib_web (lib_heap w 0))
         = (Inl (statusError 500 ''down''), w\<lparr>sent := [GetLibraryFolders []]\<rparr>)"
    by (simp add: web_Library_Folders_def do_request_def rm_def s)
       (simp add: w_def NewRoot_def zero_web_Library_def)
  have h3: "DotDot (fld_heap w 0) = LibraryPtr 0
     \<and> web_Library_Folder rm w (lib_web (lib_heap w 0)) (FolderID (fld_web (fld_heap w 0)))
         = (Inl (statusError 500 ''down''), w\<lparr>sent := [GetFolder [] 0]\<rparr>)"
    by (simp add: web_Library_Folder_def folder_by_id_def do_request_def rm_def s)
       (simp add: w_def NewRoot_def zero_web_Library_def zero_web_Folder_def)
  have h4: "DotDot (fld_heap w 1) = FolderPtr 0
     \<and> web_Folder_Folder rm w (fld_web (fld_heap w 0)) (FolderID (fld_web (fld_heap w 1)))
         = (Inl (statusError 500 ''down''), w\<lparr>sent := [GetFolder [] 0]\<rparr>)"
    by (simp add: web_Folder_Folder_def folder_by_id_def do_request_def rm_def s)
       (simp add: w_def NewRoot_def zero_web_Folder_def)
  from refresh_failure_leaves_tree [of rm w _ _ 0 _ _ 0 0 _ _ 1 0] h1 h2 h3 h4
  show ?thesis
    unfolding Let_def rm_def [symmetric] w_def [symmetric] by simp
qed

subsection \<open>The pool of clients\<close>

text \<open>
  Claim C6 at the pool \<open>NewClientPool\<close>, for a data center whose url parses and prints
  as it is written: a client is borrowed for the token \<open>ab\<close> and released.  \<open>Cache\<close>
  files it under the token \<open>b\<close>.  The next borrow for \<open>ab\<close> gets another, new
  client; a borrow for the other key, with the token \<open>b\<close>, gets the released client,
  whose token is \<open>ab\<close>.
\<close>

theorem released_client_filed_under_other_key:
  "(case ClientPool_Client Inr NewClientPool ''https://h'' ''ab'' of
     Return (Inr c1, p1) \<Rightarrow>
       (case ClientPool_Cache p1 c1 of
          Return p2 \<Rightarrow>
            (case ClientPool_Client Inr p2 ''https://h'' ''ab'' of
               Return (Inr c2, p3) \<Rightarrow> c2 \<noteq> c1
             | _ \<Rightarrow> False)
            \<and> (case ClientPool_Client Inr p2 ''https://h'' ''b'' of
               Return (Inr c3, p3) \<Rightarrow>
                 c3 = c1 \<and> phoenixToken (client_heap p3 c3) = ''PHOENIX-TOKEN ab''
             | _ \<Rightarrow> False)
        | Panicked e \<Rightarrow> False)
   | _ \<Rightarrow> False)"
  by (simp add: ClientPool_Client_def ClientPool_Cache_def NewClientPool_def NewClient_def
        getOrCreateSubPool_def getClient_def cacheClient_def newClientSubPool_def
        stringNotEmpty_def PhoenixTokenPrefix_def index_def Let_def)

subsection \<open>Flushes of the chunked upload\<close>

lemma patch_bodies_append [simp]: "patch_bodies (xs @ ys) = patch_bodies xs @ patch_bodies ys"
  by (induction xs rule: patch_bodies.induct) auto

lemma PatchSize_pos: "0 < PatchSize"
  by (simp add: PatchSize_def K_def)

lemma div_add_self_nat: "0 < P \<Longrightarrow> (a + P) div P = Suc (a div (P::nat))"
  by (simp add: div_add_self2)

lemma ceil_small: "0 < s \<Longrightarrow> s \<le> P \<Longrightarrow> (s + P - 1) div P = (1::nat)"
  using div_add_self_nat[of P "s - 1"] by (cases s) auto

lemma ceil_big: "0 < P \<Longrightarrow> P < s \<Longrightarrow> (s + P - 1) div P = Suc ((s - P + P - 1) div P)"
  using div_add_self_nat[of P "s - 1"] by (cases s) auto

lemma bodies_ok_simps [simp]:
  "bodies_ok []"
  "bodies_ok (xs @ ys) \<longleftrightarrow> bodies_ok xs \<and> bodies_ok ys"
  "bodies_ok (Patch l b # rs) \<longleftrightarrow> b \<noteq> [] \<and> length b \<le> PatchSize \<and> bodies_ok rs"
  "bodies_ok (Finalize d r # rs) \<longleftrightarrow> bodies_ok rs"
  by (simp_all add: bodies_ok_def)

lemma patch_any:
  "patch env w = (e, w') \<Longrightarrow>
     issued w' = issued w @ [Patch (Location (resp w)) (dataBuffer w)]
     \<and> length (dataBuffer w') \<le> length (dataBuffer w)
     \<and> Links_Documents w' = Links_Documents w"
  by (auto simp: patch_def Let_def split: http_reply.splits prod.splits option.splits if_splits)

lemma Write_loop_any:
  "length (dataBuffer w) \<le> PatchSize \<Longrightarrow>
    \<exists>r w' new. Write_loop env w remaining len_p = Return (r, w')
       \<and> length (dataBuffer w') \<le> PatchSize
       \<and> Links_Documents w' = Links_Documents w
       \<and> issued w' = issued w @ new \<and> bodies_ok new"
proof (induction env w remaining len_p rule: Write_loop.induct)
  case (1 env w remaining len_p)
  show ?case
  proof (cases "0 < length remaining")
    case False
    then show ?thesis
      by (subst Write_loop.simps) (use "1.prems" in simp)
  next
    case True
    then have ne: "remaining \<noteq> []" by simp
    define a where "a = int PatchSize - int (length (dataBuffer w))"
    have av: "available w = Return a"
      using "1.prems" by (simp add: available_def a_def Let_def)
    define limit where "limit = (if a > int (length remaining) then length remaining else nat a)"
    define w1 where "w1 = w\<lparr>dataBuffer := dataBuffer w @ take limit remaining\<rparr>"
    have len1: "length (dataBuffer w1) \<le> PatchSize"
      using "1.prems" by (auto simp: w1_def limit_def a_def)
    have ne1: "dataBuffer w1 \<noteq> []"
      using ne "1.prems" PatchSize_pos by (cases remaining) (auto simp: w1_def limit_def a_def)
    obtain x w2 where p: "patch env w1 = (x, w2)"
      by (cases "patch env w1")
    note pa = patch_any[OF p]
    have ok1: "bodies_ok [Patch (Location (resp w1)) (dataBuffer w1)]"
      using len1 ne1 by simp
    show ?thesis
    proof (cases x)
      case (Some err)
      have "Write_loop env w remaining len_p = Return ((limit, Some err), w2)"
        by (subst Write_loop.simps)
           (simp add: ne av Let_def limit_def[symmetric] w1_def[symmetric] p Some)
      then show ?thesis
        using pa len1 ok1 by (auto simp: w1_def)
    next
      case None
      have unf: "Write_loop env w remaining len_p = Write_loop env w2 (drop limit remaining) len_p"
        by (subst Write_loop.simps)
           (simp add: ne av Let_def limit_def[symmetric] w1_def[symmetric] p None)
      have "length (dataBuffer w2) \<le> PatchSize"
        using pa len1 by simp
      from "1.IH"[OF True av limit_def w1_def refl p[symmetric] None this]
      obtain r w' new where "Write_loop env w2 (drop limit remaining) len_p = Return (r, w')"
        "length (dataBuffer w') \<le> PatchSize" "Links_Documents w' = Links_Documents w2"
        "issued w' = issued w2 @ new" "bodies_ok new"
        by auto
      then show ?thesis
        using pa ok1 by (auto simp: unf w1_def)
    qed
  qed
qed

lemma Write_any:
  assumes "length (dataBuffer w) \<le> PatchSize"
  shows "\<exists>r w' new. Write env w p = Return (r, w')
       \<and> length (dataBuffer w') \<le> PatchSize
       \<and> Links_Documents w' = Links_Documents w
       \<and> issued w' = issued w @ new \<and> bodies_ok new
       \<and> (p = [] \<longrightarrow> r = (0, None) \<and> w' = w)"
proof (cases "int (length p) \<le> int PatchSize - int (length (dataBuffer w))")
  case True
  then show ?thesis
    using assms by (auto simp: Write_def available_def Let_def)
next
  case False
  then have "p \<noteq> []" using assms by auto
  with False Write_loop_any[OF assms, of env p "length p"] show ?thesis
    using assms by (auto simp: Write_def available_def Let_def)
qed

lemma Write_all_any:
  "length (dataBuffer w) \<le> PatchSize \<Longrightarrow>
    \<exists>e w' new. Write_all env w ps = Return (e, w')
       \<and> length (dataBuffer w') \<le> PatchSize
       \<and> Links_Documents w' = Links_Documents w
       \<and> issued w' = issued w @ new \<and> bodies_ok new
       \<and> (concat ps = [] \<longrightarrow> e = None \<and> w' = w)"
proof (induction ps arbitrary: w)
  case Nil
  then show ?case by simp
next
  case (Cons p ps)
  from Write_any[OF Cons.prems, of env p]
  obtain r w1 new1 where 1: "Write env w p = Return (r, w1)" "length (dataBuffer w1) \<le> PatchSize"
    "Links_Documents w1 = Links_Documents w" "issued w1 = issued w @ new1" "bodies_ok new1"
    "p = [] \<longrightarrow> r = (0, None) \<and> w1 = w"
    by blast
  obtain n x where r: "r = (n, x)" by (cases r)
  show ?case
  proof (cases x)
    case (Some err)
    then have "p \<noteq> []" using 1 r by auto
    then show ?thesis
      using 1 r Some by auto
  next
    case None
    from Cons.IH[OF 1(2)]
    obtain e w' new where 2: "Write_all env w1 ps = Return (e, w')" "length (dataBuffer w') \<le> PatchSize"
      "Links_Documents w' = Links_Documents w1" "issued w' = issued w1 @ new" "bodies_ok new"
      "concat ps = [] \<longrightarrow> e = None \<and> w' = w1"
      by blast
    show ?thesis
      using 1 2 r None by auto
  qed
qed

lemma Close_any:
  assumes "length (dataBuffer w) \<le> PatchSize"
  shows "\<exists>e w' new. Close env w = (e, w')
       \<and> issued w' = issued w @ new \<and> bodies_ok new
       \<and> (dataBuffer w = [] \<longrightarrow> new = [Finalize (Links_Documents w) (resp w)])"
proof (cases "dataBuffer w = []")
  case True
  then show ?thesis
    by (auto simp: Close_def Let_def)
next
  case False
  obtain x w2 where p: "patch env w = (x, w2)"
    by (cases "patch env w")
  note pa = patch_any[OF p]
  show ?thesis
    using False p pa assms by (cases x) (auto simp: Close_def Let_def)
qed


lemma ceil_zero: "0 < P \<Longrightarrow> (0 + P - 1) div P = (0::nat)"
  by simp

lemma patch_success:
  "patch env w = (None, w') \<Longrightarrow>
     dataBuffer w' = [] \<and> issued w' = issued w @ [Patch (Location (resp w)) (dataBuffer w)]
     \<and> Links_Documents w' = Links_Documents w"
  by (auto simp: patch_def Let_def split: http_reply.splits prod.splits option.splits if_splits)

lemma Write_loop_done: "Write_loop env w [] len_p = Return ((len_p, None), w)"
  by (subst Write_loop.simps) simp

lemma Write_loop_step:
  assumes "remaining \<noteq> []" and "length (dataBuffer w) \<le> PatchSize"
  shows "Write_loop env w remaining len_p =
     (case patch env (w\<lparr>dataBuffer := dataBuffer w
               @ take (min (PatchSize - length (dataBuffer w)) (length remaining)) remaining\<rparr>) of
        (Some err, w2) \<Rightarrow>
          Return ((min (PatchSize - length (dataBuffer w)) (length remaining), Some err), w2)
      | (None, w2) \<Rightarrow>
          Write_loop env w2
            (drop (min (PatchSize - length (dataBuffer w)) (length remaining)) remaining) len_p)"
proof -
  have av: "available w = Return (int PatchSize - int (length (dataBuffer w)))"
    using assms(2) by (simp add: available_def Let_def)
  have lim: "(if int PatchSize - int (length (dataBuffer w)) > int (length remaining)
              then length remaining else nat (int PatchSize - int (length (dataBuffer w))))
             = min (PatchSize - length (dataBuffer w)) (length remaining)"
    using assms(2) by auto
  show ?thesis
    by (subst Write_loop.simps) (simp add: assms(1) av Let_def lim split: prod.splits option.splits)
qed

lemma Write_loop_count:
  "length (dataBuffer w) \<le> PatchSize \<Longrightarrow>
   Write_loop env w remaining len_p = Return ((n, None), w') \<Longrightarrow>
     n = len_p \<and> dataBuffer w' = (if remaining = [] then dataBuffer w else [])
     \<and> length (patch_bodies (issued w')) = length (patch_bodies (issued w)) +
          (if remaining = [] then 0
           else (length (dataBuffer w) + length remaining + PatchSize - 1) div PatchSize)"
proof (induction env w remaining len_p rule: Write_loop.induct)
  case (1 env w remaining len_p)
  show ?case
  proof (cases "0 < length remaining")
    case False
    then show ?thesis
      using "1.prems"(2) by (simp add: Write_loop_done)
  next
    case True
    then have ne: "remaining \<noteq> []" by simp
    define a where "a = int PatchSize - int (length (dataBuffer w))"
    have av: "available w = Return a"
      using "1.prems"(1) by (simp add: available_def a_def Let_def)
    define limit where "limit = (if a > int (length remaining) then length remaining else nat a)"
    define w1 where "w1 = w\<lparr>dataBuffer := dataBuffer w @ take limit remaining\<rparr>"
    obtain x w2 where p: "patch env w1 = (x, w2)"
      by (cases "patch env w1")
    show ?thesis
    proof (cases x)
      case (Some err)
      have "Write_loop env w remaining len_p = Return ((limit, Some err), w2)"
        by (subst Write_loop.simps)
           (simp add: ne av Let_def limit_def[symmetric] w1_def[symmetric] p Some)
      with "1.prems"(2) show ?thesis by simp
    next
      case None
      have unf: "Write_loop env w remaining len_p = Write_loop env w2 (drop limit remaining) len_p"
        by (subst Write_loop.simps)
           (simp add: ne av Let_def limit_def[symmetric] w1_def[symmetric] p None)
      from patch_success[OF p[unfolded None]]
      have d2: "dataBuffer w2 = []"
        and i2: "issued w2 = issued w1 @ [Patch (Location (resp w1)) (dataBuffer w1)]"
        by simp_all
      have len2: "length (dataBuffer w2) \<le> PatchSize"
        by (simp add: d2)
      have rest: "Write_loop env w2 (drop limit remaining) len_p = Return ((n, None), w')"
        using "1.prems"(2) by (simp add: unf)
      from "1.IH"[OF True av limit_def w1_def refl p[symmetric] None len2 rest]
      have ih: "n = len_p"
        "dataBuffer w' = (if drop limit remaining = [] then dataBuffer w2 else [])"
        "length (patch_bodies (issued w')) = length (patch_bodies (issued w2)) +
            (if drop limit remaining = [] then 0
             else (length (dataBuffer w2) + length (drop limit remaining) + PatchSize - 1) div PatchSize)"
        by simp_all
      let ?s = "length (dataBuffer w) + length remaining"
      have cnt: "(if drop limit remaining = [] then 0
             else (length (drop limit remaining) + PatchSize - 1) div PatchSize) + 1
          = (?s + PatchSize - 1) div PatchSize"
      proof (cases "?s \<le> PatchSize")
        case True
        then have "limit = length remaining"
          using \<open>0 < length remaining\<close> by (auto simp: limit_def a_def)
        moreover have "0 < ?s" using \<open>0 < length remaining\<close> by simp
        then have "(?s + PatchSize - 1) div PatchSize = 1" using True by (rule ceil_small)
        ultimately show ?thesis by simp
      next
        case False
        then have lim: "limit = PatchSize - length (dataBuffer w)"
          using "1.prems"(1) by (auto simp: limit_def a_def)
        then have "length (drop limit remaining) = ?s - PatchSize"
          using "1.prems"(1) by simp
        moreover have "PatchSize < ?s" using False by simp
        ultimately show ?thesis
          using ceil_big[OF PatchSize_pos, of ?s] by auto
      qed
      show ?thesis
        using ih cnt ne by (auto simp: d2 i2 w1_def)
    qed
  qed
qed

lemma Write_count:
  assumes "length (dataBuffer w) \<le> PatchSize" and "Write env w p = Return ((n, None), w')"
  shows "n = length p
       \<and> (if length (dataBuffer w) + length p \<le> PatchSize
           then dataBuffer w' = dataBuffer w @ p
                \<and> length (patch_bodies (issued w')) = length (patch_bodies (issued w))
           else dataBuffer w' = []
                \<and> length (patch_bodies (issued w')) = length (patch_bodies (issued w)) +
                     (length (dataBuffer w) + length p + PatchSize - 1) div PatchSize)"
proof (cases "length (dataBuffer w) + length p \<le> PatchSize")
  case True
  then show ?thesis
    using assms by (auto simp: Write_def available_def Let_def)
next
  case False
  then have ne: "p \<noteq> []" using assms(1) by auto
  from False assms have "Write_loop env w p (length p) = Return ((n, None), w')"
    by (auto simp: Write_def available_def Let_def split: if_splits)
  from Write_loop_count[OF assms(1) this] ne False show ?thesis
    by simp
qed

lemma Close_count:
  "Close env w = (e, w') \<Longrightarrow>
     length (patch_bodies (issued w')) = length (patch_bodies (issued w)) +
            (if dataBuffer w = [] then 0 else 1)"
proof (cases "dataBuffer w = []")
  case True
  assume "Close env w = (e, w')"
  with True show ?thesis
    by (auto simp: Close_def Let_def)
next
  case False
  assume c: "Close env w = (e, w')"
  obtain x w2 where p: "patch env w = (x, w2)"
    by (cases "patch env w")
  note pa = patch_any[OF p]
  show ?thesis
    using False c p pa by (cases x) (auto simp: Close_def Let_def)
qed

lemma newLargeDocument_loop_count:
  "newLargeDocument_loop env location name cur content reqs = (None, reqs') \<Longrightarrow>
     length (patch_bodies reqs') =
       length (patch_bodies reqs) + (length content + PatchSize - 1) div PatchSize"
proof (induction env location name cur content reqs rule: newLargeDocument_loop.induct)
  case (1 env location name cur content reqs)
  show ?case
  proof (cases "content = []")
    case True
    then show ?thesis
      using "1.prems" PatchSize_pos by (subst (asm) newLargeDocument_loop.simps) (simp add: Let_def)
  next
    case False
    define chunk where "chunk = take PatchSize content"
    define req where "req = Patch location chunk"
    have w: "length chunk \<noteq> 0"
      using False PatchSize_pos by (simp add: chunk_def)
    have unf0: "newLargeDocument_loop env location name cur content reqs =
           (case http env reqs req of
             RequestFailed err k \<Rightarrow>
               (Some (ErrorfWithCause err ''failed to patch document %q: %v'' [name]),
                reqs @ [req])
           | Body bs \<Rightarrow>
               (case unmarshal env bs cur of
                  (Some err, cur) \<Rightarrow>
                    (Some (ErrorfWithCause err ''failed to unmarshal updated upload info: %v'' []),
                     reqs @ [req])
                | (None, cur) \<Rightarrow>
                    if CurrentSize cur = 0
                    then (Some (Errorf ''Last patch of document %q uploaded nothing.'' [name]),
                          reqs @ [req])
                    else newLargeDocument_loop env location name cur
                           (drop PatchSize content) (reqs @ [req])))"
      by (subst newLargeDocument_loop.simps)
         (use w in \<open>simp add: Let_def chunk_def[symmetric] req_def[symmetric]\<close>)
    from "1.prems" obtain bs where bs: "http env reqs req = Body bs"
      unfolding unf0 by (cases "http env reqs req") auto
    obtain x cur' where u: "unmarshal env bs cur = (x, cur')"
      by (cases "unmarshal env bs cur")
    from "1.prems" have x: "x = None"
      unfolding unf0 by (cases x) (auto simp: bs u)
    from "1.prems" have c: "CurrentSize cur' \<noteq> 0"
      unfolding unf0 by (auto simp: bs u x split: if_splits)
    from "1.prems" have rest: "newLargeDocument_loop env location name cur'
        (drop PatchSize content) (reqs @ [req]) = (None, reqs')"
      unfolding unf0 by (simp add: bs u x c)
    from "1.IH"[OF chunk_def refl w req_def bs u[symmetric] x c rest]
    have r: "length (patch_bodies reqs') =
            length (patch_bodies (reqs @ [req])) + (length (drop PatchSize content) + PatchSize - 1) div PatchSize"
      .
    have cnt: "Suc ((length content - PatchSize + PatchSize - 1) div PatchSize)
                 = (length content + PatchSize - 1) div PatchSize"
    proof (cases "length content \<le> PatchSize")
      case True
      moreover have "0 < length content" using False by simp
      then have "(length content + PatchSize - 1) div PatchSize = 1"
        using True by (rule ceil_small)
      ultimately show ?thesis using PatchSize_pos by simp
    next
      case False
      then show ?thesis
        using ceil_big[OF PatchSize_pos, of "length content"] by simp
    qed
    show ?thesis
      using r cnt by (simp add: req_def)
  qed
qed

lemma createNewLargeDocument_requests:
  "createNewLargeDocument env reqs self name = (r, reqs1) \<Longrightarrow> patch_bodies reqs1 = patch_bodies reqs"
  by (auto simp: createNewLargeDocument_def Let_def split: http_reply.splits)

lemma newLargeDocument_count:
  assumes "newLargeDocument env reqs self documents name content = (None, reqs')"
  shows "length (patch_bodies reqs') =
           length (patch_bodies reqs) + (length content + PatchSize - 1) div PatchSize"
proof -
  obtain x res reqs1 where c: "createNewLargeDocument env reqs self name = ((x, res), reqs1)"
    by (cases "createNewLargeDocument env reqs self name") auto
  have x: "x = None"
    using assms by (cases x) (auto simp: newLargeDocument_def c)
  obtain y reqs2 where l: "newLargeDocument_loop env (Location res) name res content reqs1 = (y, reqs2)"
    by (cases "newLargeDocument_loop env (Location res) name res content reqs1")
  have y: "y = None"
    using assms by (cases y) (auto simp: newLargeDocument_def c x l)
  have "reqs' = reqs2 @ [Finalize documents res]"
    using assms by (auto simp: newLargeDocument_def c x l y Let_def)
  then show ?thesis
    using newLargeDocument_loop_count[OF l[unfolded y]] createNewLargeDocument_requests[OF c]
    by simp
qed

text \<open>
  Claim C4 as the code has it.  Whatever the service answers, the writes of an upload
  and the \<open>Close\<close> after them return, each PATCH they issue carries at least one byte
  and at most \<open>PatchSize\<close> bytes, and an upload of no bytes issues the finalizing
  request and nothing else.  A payload written by one \<open>Write\<close> that returns no error, and
  then closed, is flushed in \<open>ceil(S / PatchSize)\<close> requests, and so is a payload that
  \<open>newLargeDocument\<close> uploads without an error.  The number of flushes of a payload that
  arrives in several writes is not promised.
\<close>

theorem chunked_upload_flushes:
  assumes "dataBuffer w = []"
  shows "(\<exists>e w1 e' w2 new.
            Write_all env w ps = Return (e, w1) \<and> Close env w1 = (e', w2)
            \<and> issued w2 = issued w @ new
            \<and> list_all (\<lambda>b. b \<noteq> [] \<and> length b \<le> PatchSize) (patch_bodies new)
            \<and> (concat ps = [] \<longrightarrow> new = [Finalize (Links_Documents w) (resp w)]))
       \<and> (\<exists>r w1 e' w2.
              Write env w p = Return (r, w1) \<and> Close env w1 = (e', w2)
              \<and> (snd r = None \<longrightarrow>
                   fst r = length p
                   \<and> length (patch_bodies (issued w2))
                       = length (patch_bodies (issued w)) + (length p + PatchSize - 1) div PatchSize))
       \<and> (fst (newLargeDocument env reqs self documents name content) = None \<longrightarrow>
           length (patch_bodies (snd (newLargeDocument env reqs self documents name content)))
             = length (patch_bodies reqs) + (length content + PatchSize - 1) div PatchSize)"
proof (intro conjI impI)
  have len: "length (dataBuffer w) \<le> PatchSize"
    using assms by simp
  from Write_all_any[OF len, of env ps]
  obtain e w1 new1 where 1: "Write_all env w ps = Return (e, w1)"
    "length (dataBuffer w1) \<le> PatchSize" "Links_Documents w1 = Links_Documents w"
    "issued w1 = issued w @ new1" "bodies_ok new1" "concat ps = [] \<longrightarrow> e = None \<and> w1 = w"
    by blast
  from Close_any[OF 1(2), of env]
  obtain e' w2 new2 where 2: "Close env w1 = (e', w2)" "issued w2 = issued w1 @ new2"
    "bodies_ok new2" "dataBuffer w1 = [] \<longrightarrow> new2 = [Finalize (Links_Documents w1) (resp w1)]"
    by blast
  have "issued w2 = issued w @ (new1 @ new2)"
    using 1 2 by simp
  moreover have "list_all (\<lambda>b. b \<noteq> [] \<and> length b \<le> PatchSize) (patch_bodies (new1 @ new2))"
    using 1 2 by (simp add: bodies_ok_def)
  moreover have "concat ps = [] \<longrightarrow> new1 @ new2 = [Finalize (Links_Documents w) (resp w)]"
    using 1 2 assms by auto
  ultimately show "\<exists>e w1 e' w2 new.
            Write_all env w ps = Return (e, w1) \<and> Close env w1 = (e', w2)
            \<and> issued w2 = issued w @ new
            \<and> list_all (\<lambda>b. b \<noteq> [] \<and> length b \<le> PatchSize) (patch_bodies new)
            \<and> (concat ps = [] \<longrightarrow> new = [Finalize (Links_Documents w) (resp w)])"
    using 1(1) 2(1) by blast
next
  have len: "length (dataBuffer w) \<le> PatchSize"
    using assms by simp
  from Write_any[OF len, of env p]
  obtain r w1 where 1: "Write env w p = Return (r, w1)"
    by blast
  obtain e' w2 where 2: "Close env w1 = (e', w2)"
    by (cases "Close env w1")
  have "fst r = length p
        \<and> length (patch_bodies (issued w2))
            = length (patch_bodies (issued w)) + (length p + PatchSize - 1) div PatchSize"
    if none: "snd r = None"
  proof -
    from none 1 have w: "Write env w p = Return ((fst r, None), w1)"
      by (cases r) simp
    from Write_count[OF len w] assms
    have n: "fst r = length p"
      and c1: "if length p \<le> PatchSize
           then dataBuffer w1 = p
                \<and> length (patch_bodies (issued w1)) = length (patch_bodies (issued w))
           else dataBuffer w1 = []
                \<and> length (patch_bodies (issued w1)) = length (patch_bodies (issued w)) +
                     (length p + PatchSize - 1) div PatchSize"
      by simp_all
    note c2 = Close_count[OF 2]
    have "length (patch_bodies (issued w2))
          = length (patch_bodies (issued w)) + (length p + PatchSize - 1) div PatchSize"
    proof (cases "length p \<le> PatchSize")
      case False
      then show ?thesis using c1 c2 by simp
    next
      case True
      show ?thesis
      proof (cases "p = []")
        case True
        then show ?thesis using c1 c2 PatchSize_pos by simp
      next
        case False
        then have "0 < length p" by simp
        then have "(length p + PatchSize - 1) div PatchSize = 1"
          using True by (rule ceil_small)
        then show ?thesis using c1 c2 True False by simp
      qed
    qed
    with n show ?thesis by simp
  qed
  then have "Write env w p = Return (r, w1) \<and> Close env w1 = (e', w2)
              \<and> (snd r = None \<longrightarrow>
                   fst r = length p
                   \<and> length (patch_bodies (issued w2))
                       = length (patch_bodies (issued w)) + (length p + PatchSize - 1) div PatchSize)"
    using 1 2 by simp
  then show "\<exists>r w1 e' w2.
              Write env w p = Return (r, w1) \<and> Close env w1 = (e', w2)
              \<and> (snd r = None \<longrightarrow>
                   fst r = length p
                   \<and> length (patch_bodies (issued w2))
                       = length (patch_bodies (issued w)) + (length p + PatchSize - 1) div PatchSize)"
    by (intro exI)
next
  assume "fst (newLargeDocument env reqs self documents name content) = None"
  then have "newLargeDocument env reqs self documents name content
       = (None, snd (newLargeDocument env reqs self documents name content))"
    by (metis prod.collapse)
  then show "length (patch_bodies (snd (newLargeDocument env reqs self documents name content)))
             = length (patch_bodies reqs) + (length content + PatchSize - 1) div PatchSize"
    by (rule newLargeDocument_count)
qed

text \<open>
  Claim C4 at a service whose response to the request for a temporary file reports a
  size of zero and whose responses to a PATCH report a size that is not zero, with an
  unmarshal that fails on an empty body: two writes of one byte, an upload of no bytes,
  one write of \<open>PatchSize + 1\<close> bytes, and three bytes through \<open>newLargeDocument\<close>.
\<close>

theorem chunked_upload_flushes_witness:
  "(let env = \<lparr>http = (\<lambda>h r. case r of CreateTemp u \<Rightarrow> Body [0]
                                    | Patch l b \<Rightarrow> Body [1]
                                    | Finalize d x \<Rightarrow> Body [2]),
               unmarshal = (\<lambda>bs r. case bs of
                                [] \<Rightarrow> (Some (ExternalError ''unexpected end of JSON input''), r)
                              | b # bs' \<Rightarrow> (None, r\<lparr>CurrentSize := (if b = 0 then 0 else 1)\<rparr>)),
               unmarshal_Document =
                 (\<lambda>bs. if bs = [] then Some (ExternalError ''unexpected end of JSON input'')
                       else None)\<rparr>;
        w = \<lparr>Links_Documents = ''docs'', resp = zero_NewLargeDocumentResponse,
             dataBuffer = [], jsonBuffer = [], issued = []\<rparr>
    in dataBuffer w = []
     \<and> (\<exists>e w1 e' w2 new.
            Write_all env w [[1], [2]] = Return (e, w1) \<and> Close env w1 = (e', w2)
            \<and> issued w2 = issued w @ new
            \<and> list_all (\<lambda>b. b \<noteq> [] \<and> length b \<le> PatchSize) (patch_bodies new))
     \<and> concat [[], []] = ([] :: byte list)
     \<and> (\<exists>e w1 e' w2.
            Write_all env w [[], []] = Return (e, w1) \<and> Close env w1 = (e', w2)
            \<and> issued w2 = issued w @ [Finalize (Links_Documents w) (resp w)])
     \<and> (\<exists>w1 e' w2.
            Write env w (replicate PatchSize 0 @ [0]) = Return ((Suc PatchSize, None), w1)
            \<and> Close env w1 = (e', w2)
            \<and> length (patch_bodies (issued w2)) = 2
            \<and> (Suc PatchSize + PatchSize - 1) div PatchSize = 2)
     \<and> fst (newLargeDocument env [] ''self'' ''docs'' ''name'' [1, 2, 3]) = None
     \<and> length (patch_bodies (snd (newLargeDocument env [] ''self'' ''docs'' ''name'' [1, 2, 3])))
          = (3 + PatchSize - 1) div PatchSize)"
proof -
  define env where "env = \<lparr>http = (\<lambda>h r. case r of CreateTemp u \<Rightarrow> Body [0]
                                    | Patch l b \<Rightarrow> Body [1]
                                    | Finalize d x \<Rightarrow> Body [2]),
               unmarshal = (\<lambda>bs r. case bs of
                                [] \<Rightarrow> (Some (ExternalError ''unexpected end of JSON input''), r)
                              | b # bs' \<Rightarrow> (None, r\<lparr>CurrentSize := (if b = 0 then 0 else 1)\<rparr>)),
               unmarshal_Document =
                 (\<lambda>bs. if bs = [] then Some (ExternalError ''unexpected end of JSON input'')
                       else None)\<rparr>"
  define w where "w = \<lparr>Links_Documents = ''docs'', resp = zero_NewLargeDocumentResponse,
             dataBuffer = ([]::byte list), jsonBuffer = [], issued = []\<rparr>"
  define p where "p = replicate PatchSize (0::byte) @ [0]"
  define flush where "flush u = u\<lparr>issued := issued u @ [Patch (Location (resp u)) (dataBuffer u)],
           dataBuffer := [], resp := (resp u)\<lparr>CurrentSize := 1\<rparr>\<rparr>" for u :: DocumentWriter
  have P: "patch env u = (None, flush u)" if "jsonBuffer u = []" for u
    using that by (simp add: patch_def env_def flush_def Let_def)
  have d: "dataBuffer w = []"
    by (simp add: w_def)
  have i: "issued w = []"
    by (simp add: w_def)
  have c: "concat [[], []] = ([] :: byte list)"
    by simp
  have c2: "(Suc PatchSize + PatchSize - 1) div PatchSize = 2"
    using PatchSize_pos by simp
  have len: "length (dataBuffer w) \<le> PatchSize"
    by (simp add: d)
  define w1 where "w1 = flush (w\<lparr>dataBuffer := replicate PatchSize 0\<rparr>)"
  define w2 where "w2 = flush (w1\<lparr>dataBuffer := [0]\<rparr>)"
  have j: "jsonBuffer w = []" "jsonBuffer w1 = []"
    by (simp_all add: w_def w1_def flush_def)
  have m: "min (PatchSize - length (dataBuffer w)) (length p) = PatchSize"
    "min PatchSize (length p) = PatchSize"
    by (simp_all add: d p_def)
  have tk: "take PatchSize p = replicate PatchSize 0" "drop PatchSize p = [0]"
    by (simp_all add: p_def)
  have pne: "p \<noteq> []"
    by (simp add: p_def)
  have lp: "length p = Suc PatchSize"
    by (simp add: p_def)
  have s1: "Write_loop env w p (Suc PatchSize) = Write_loop env w1 [0] (Suc PatchSize)"
    using Write_loop_step[OF pne len, of env "Suc PatchSize"]
      P[of "w\<lparr>dataBuffer := replicate PatchSize 0\<rparr>"]
    by (simp add: m tk d w1_def j)
  have d1: "dataBuffer w1 = []"
    by (simp add: w1_def flush_def)
  have s2: "Write_loop env w1 [0] (Suc PatchSize) = Write_loop env w2 [] (Suc PatchSize)"
    using Write_loop_step[of "[0]" w1 env "Suc PatchSize"] P[of "w1\<lparr>dataBuffer := [0]\<rparr>"] PatchSize_pos
    by (simp add: d1 w2_def j)
  have wr: "Write env w p = Return ((Suc PatchSize, None), w2)"
    by (simp add: Write_def available_def d lp s1 s2 Write_loop_done)
  obtain e' w3 where cl: "Close env w2 = (e', w3)"
    by (cases "Close env w2")
  have e: "\<exists>e w1 e' w2.
            Write_all env w [[], []] = Return (e, w1) \<and> Close env w1 = (e', w2)
            \<and> issued w2 = issued w @ [Finalize (Links_Documents w) (resp w)]"
    using chunked_upload_flushes [OF d, of env "[[], []]"] c by blast
  have n: "fst (newLargeDocument env [] ''self'' ''docs'' ''name'' [1, 2, 3]) = None"
    by (simp add: newLargeDocument_def createNewLargeDocument_def env_def Let_def
          zero_NewLargeDocumentResponse_def)
       (subst newLargeDocument_loop.simps, simp add: Let_def PatchSize_def K_def,
        subst newLargeDocument_loop.simps, simp add: Let_def PatchSize_def K_def)
  from chunked_upload_flushes
         [OF d, of env "[[1], [2]]" p "[]" "''self''" "''docs''" "''name''" "[1, 2, 3]"]
       wr cl c2 n i
  have t: "(\<exists>e w1 e' w2 new.
            Write_all env w [[1], [2]] = Return (e, w1) \<and> Close env w1 = (e', w2)
            \<and> issued w2 = issued w @ new
            \<and> list_all (\<lambda>b. b \<noteq> [] \<and> length b \<le> PatchSize) (patch_bodies new))"
     "length (patch_bodies (issued w3)) = 2"
     "length (patch_bodies (snd (newLargeDocument env [] ''self'' ''docs'' ''name'' [1, 2, 3])))
          = (3 + PatchSize - 1) div PatchSize"
    by (auto simp: lp)
  show ?thesis
    unfolding Let_def env_def [symmetric] w_def [symmetric] p_def [symmetric]
    using d c e wr cl t c2 n by blast
qed

text \<open>
  Claim C4 as it is written fails for a payload of \<open>PatchSize + 2\<close> bytes written as
  \<open>PatchSize\<close> bytes, one byte and one byte: \<open>ceil(S / PatchSize)\<close> is 2, and the writer
  issues three flushes (of \<open>PatchSize\<close> bytes, one byte and one byte).
\<close>

theorem three_flushes_for_two_patch_sizes:
  "(let env = \<lparr>http = (\<lambda>h r. Body []), unmarshal = (\<lambda>bs r. (None, r\<lparr>CurrentSize := 1\<rparr>)),
               unmarshal_Document = (\<lambda>bs. None)\<rparr>;
        w = \<lparr>Links_Documents = ''docs'', resp = zero_NewLargeDocumentResponse,
             dataBuffer = [], jsonBuffer = [], issued = []\<rparr>;
        ps = [replicate PatchSize 0, [0], [0]]
    in (case Write_all env w ps of
          Return (None, w1) \<Rightarrow>
            (case Close env w1 of
               (None, w2) \<Rightarrow> length (patch_bodies (issued w2)) = 3
             | (Some err, w2) \<Rightarrow> False)
        | _ \<Rightarrow> False)
     \<and> (length (concat ps) + PatchSize - 1) div PatchSize = 2)"
proof -
  define env where "env = \<lparr>http = (\<lambda>h r. Body []),
      unmarshal = (\<lambda>bs r. (None, r\<lparr>CurrentSize := 1\<rparr>)), unmarshal_Document = (\<lambda>bs. None)\<rparr>"
  define w where "w = \<lparr>Links_Documents = ''docs'', resp = zero_NewLargeDocumentResponse,
             dataBuffer = [], jsonBuffer = ([]::byte list), issued = []\<rparr>"
  define flush where "flush u = u\<lparr>issued := issued u @ [Patch (Location (resp u)) (dataBuffer u)],
           dataBuffer := [], jsonBuffer := [], resp := (resp u)\<lparr>CurrentSize := 1\<rparr>\<rparr>"
    for u :: DocumentWriter
  have P: "patch env u = (None, flush u)" for u
    by (simp add: patch_def env_def flush_def Let_def)
  have F: "dataBuffer (flush u) = []" "length (patch_bodies (issued (flush u)))
             = Suc (length (patch_bodies (issued u)))" for u
    by (simp_all add: flush_def)
  define w1 where "w1 = w\<lparr>dataBuffer := replicate PatchSize 0\<rparr>"
  define w2 where "w2 = flush w1"
  define w3 where "w3 = flush (w2\<lparr>dataBuffer := [0]\<rparr>)"
  define w4 where "w4 = w3\<lparr>dataBuffer := [0]\<rparr>"
  have 1: "Write env w (replicate PatchSize 0) = Return ((PatchSize, None), w1)"
    by (simp add: Write_def available_def w_def w1_def)
  have d1: "length (dataBuffer w1) = PatchSize"
    by (simp add: w1_def)
  have s1: "Write_loop env w1 [0] n = Write_loop env w2 [0] n" for n
    using Write_loop_step[of "[0]" w1 env n] by (simp add: d1 P w2_def)
  have d2: "dataBuffer w2 = []"
    by (simp add: w2_def F)
  have s2: "Write_loop env w2 [0] n = Write_loop env w3 [] n" for n
    using Write_loop_step[of "[0]" w2 env n] PatchSize_pos by (simp add: d2 P w3_def)
  have 2: "Write env w1 [0] = Return ((1, None), w3)"
    by (simp add: Write_def available_def d1 s1 s2 Write_loop_done)
  have d3: "dataBuffer w3 = []"
    by (simp add: w3_def F)
  have 3: "Write env w3 [0] = Return ((1, None), w4)"
    using PatchSize_pos by (simp add: Write_def available_def d3 w4_def)
  have 4: "Close env w4 = (None, (flush w4)\<lparr>issued := issued (flush w4)
              @ [Finalize (Links_Documents (flush w4)) (resp (flush w4))]\<rparr>)"
    by (simp add: Close_def w4_def P Let_def) (simp add: env_def)
  have c: "length (patch_bodies (issued w4)) = 2"
    by (simp add: w4_def w3_def w2_def w1_def w_def F)
  have "Write_all env w [replicate PatchSize 0, [0], [0]] = Return (None, w4)"
    by (simp add: 1 2 3)
  moreover have "(length (concat [replicate PatchSize (0::byte), [0], [0]]) + PatchSize - 1) div PatchSize = 2"
    by (simp add: PatchSize_def K_def)
  ultimately show ?thesis
    unfolding Let_def env_def [symmetric] w_def [symmetric] using 4 c by (simp add: F)
qed

subsection \<open>A flush that uploads nothing\<close>












subsection \<open>The index a merge builds\<close>

lemma add_insert_child: "fst (add w obs c) = insert_child obs (ID w c, Name w c, c)"
  by (auto simp: add_def insert_child_def comma_ok_def Let_def split: option.splits)

lemma ChildByID_eq:
  "ChildByID obs i = Return (Some c) \<longleftrightarrow> (\<exists>k. ids obs i = Some k \<and> k < length (children obs) \<and> children obs ! k = c)"
  by (auto simp: ChildByID_def comma_ok_def index_def split: option.splits)

lemma ChildByName_eq:
  "ChildByName obs n = Return (Some c) \<longleftrightarrow> (\<exists>k. names obs n = Some k \<and> k < length (children obs) \<and> children obs ! k = c)"
  by (auto simp: ChildByName_def comma_ok_def index_def split: option.splits)

lemma ChildByName_None: "names obs n = None \<Longrightarrow> ChildByName obs n = Return None"
  by (simp add: ChildByName_def comma_ok_def)

text \<open>Lookups that succeed keep their answer when more children are inserted.\<close>

lemma insert_keeps_id:
  "ChildByID obs i = Return (Some c) \<Longrightarrow> ChildByID (insert_child obs e) i = Return (Some c)"
  by (cases e) (auto simp: ChildByID_eq insert_child_def nth_append)

lemma insert_keeps_name:
  "ChildByName obs n = Return (Some c) \<Longrightarrow> ChildByName (insert_child obs e) n = Return (Some c)"
  by (cases e) (auto simp: ChildByName_eq insert_child_def nth_append)

lemma foldl_keeps_id:
  "ChildByID obs i = Return (Some c) \<Longrightarrow> ChildByID (foldl insert_child obs es) i = Return (Some c)"
  by (induction es arbitrary: obs) (simp_all add: insert_keeps_id)

lemma foldl_keeps_name:
  "ChildByName obs n = Return (Some c) \<Longrightarrow> ChildByName (foldl insert_child obs es) n = Return (Some c)"
  by (induction es arbitrary: obs) (simp_all add: insert_keeps_name)

lemma dom_ids_insert: "dom (ids (insert_child obs e)) \<subseteq> insert (fst e) (dom (ids obs))"
  by (cases e) (auto simp: insert_child_def split: if_splits)

lemma dom_names_insert: "dom (names (insert_child obs e)) \<subseteq> insert (fst (snd e)) (dom (names obs))"
  by (cases e) (auto simp: insert_child_def split: if_splits)

lemma dom_ids_foldl: "dom (ids (foldl insert_child obs es)) \<subseteq> dom (ids obs) \<union> fst ` set es"
proof (induction es arbitrary: obs)
  case Nil
  show ?case by simp
next
  case (Cons e es)
  show ?case
    using Cons.IH[of "insert_child obs e"] dom_ids_insert[of obs e] by auto
qed

lemma dom_names_foldl:
  "dom (names (foldl insert_child obs es)) \<subseteq> dom (names obs) \<union> (fst \<circ> snd) ` set es"
proof (induction es arbitrary: obs)
  case Nil
  show ?case by simp
next
  case (Cons e es)
  show ?case
    using Cons.IH[of "insert_child obs e"] dom_names_insert[of obs e] by auto
qed

lemma ids_insert_mono: "ids obs i = Some k \<Longrightarrow> ids (insert_child obs e) i = Some k"
  by (cases e) (auto simp: insert_child_def)

lemma ids_foldl_mono: "ids obs i = Some k \<Longrightarrow> ids (foldl insert_child obs es) i = Some k"
  by (induction es arbitrary: obs) (simp_all add: ids_insert_mono)

text \<open>When no name is taken, every id of the entries is in the id map afterwards.\<close>

lemma ids_after_foldl:
  "distinct (map (fst \<circ> snd) es) \<Longrightarrow> dom (names obs) \<inter> (fst \<circ> snd) ` set es = {} \<Longrightarrow>
     fst ` set es \<subseteq> dom (ids (foldl insert_child obs es))"
proof (induction es arbitrary: obs)
  case Nil
  show ?case by simp
next
  case (Cons e es)
  obtain i n c where e: "e = (i, n, c)" by (cases e)
  have n: "names obs n = None"
    using Cons.prems(2) e by auto
  have "ids (insert_child obs e) i \<noteq> None"
    using n by (auto simp: insert_child_def e)
  then have 1: "i \<in> dom (ids (foldl insert_child (insert_child obs e) es))"
    using ids_foldl_mono by fastforce
  have "dom (names (insert_child obs e)) \<inter> (fst \<circ> snd) ` set es = {}"
    using dom_names_insert[of obs e] Cons.prems by (auto simp: e)
  with Cons.IH[of "insert_child obs e"] Cons.prems(1)
  have "fst ` set es \<subseteq> dom (ids (foldl insert_child (insert_child obs e) es))"
    by simp
  with 1 show ?case by (simp add: e)
qed

text \<open>The first entry with an id is the one found by that id, and by its name.\<close>

lemma first_entry_found:
  assumes "es = pre @ (i, n, c) # post"
      and "i \<notin> fst ` set pre"
      and "distinct (map (fst \<circ> snd) es)"
  shows "ChildByID (foldl insert_child (init m) es) i = Return (Some c)"
    and "ChildByName (foldl insert_child (init m) es) n = Return (Some c)"
proof -
  let ?o1 = "foldl insert_child (init m) pre"
  have "ids ?o1 i = None"
    using dom_ids_foldl[of "init m" pre] assms(2) by (auto simp: init_def)
  moreover have "names ?o1 n = None"
    using dom_names_foldl[of "init m" pre] assms(1,3) by (auto simp: init_def)
  ultimately have ins: "insert_child ?o1 (i, n, c)
      = ?o1\<lparr>children := children ?o1 @ [c], ids := (ids ?o1)(i \<mapsto> length (children ?o1)),
             names := (names ?o1)(n \<mapsto> length (children ?o1))\<rparr>"
    by (simp add: insert_child_def)
  have "ChildByID (insert_child ?o1 (i, n, c)) i = Return (Some c)"
    unfolding ins by (simp add: ChildByID_eq)
  then show "ChildByID (foldl insert_child (init m) es) i = Return (Some c)"
    using foldl_keeps_id by (simp add: assms(1))
  have "ChildByName (insert_child ?o1 (i, n, c)) n = Return (Some c)"
    unfolding ins by (simp add: ChildByName_eq)
  then show "ChildByName (foldl insert_child (init m) es) n = Return (Some c)"
    using foldl_keeps_name by (simp add: assms(1))
qed

text \<open>An entry whose id an earlier entry has is not inserted: its name is not found.\<close>

lemma later_entry_dropped:
  assumes "es = pre @ (i, n, c) # post"
      and "i \<in> fst ` set pre"
      and "distinct (map (fst \<circ> snd) es)"
  shows "ChildByName (foldl insert_child (init m) es) n = Return None"
    and "length (children (foldl insert_child (init m) es)) < length es"
proof -
  let ?o1 = "foldl insert_child (init m) pre"
  have "distinct (map (fst \<circ> snd) pre)"
    using assms(1,3) by simp
  then have "fst ` set pre \<subseteq> dom (ids ?o1)"
    by (rule ids_after_foldl) (simp add: init_def)
  then have "ids ?o1 i \<noteq> None"
    using assms(2) by auto
  then have same: "insert_child ?o1 (i, n, c) = ?o1"
    by (simp add: insert_child_def)
  have eq: "foldl insert_child (init m) es = foldl insert_child ?o1 post"
    by (simp add: assms(1) same)
  have "n \<notin> dom (names ?o1)"
    using dom_names_foldl[of "init m" pre] assms(1,3) by (auto simp: init_def)
  moreover have "n \<notin> (fst \<circ> snd) ` set post"
    using assms(1,3) by auto
  ultimately have "names (foldl insert_child ?o1 post) n = None"
    using dom_names_foldl[of ?o1 post] by blast
  then show "ChildByName (foldl insert_child (init m) es) n = Return None"
    by (simp add: eq ChildByName_None)
  have len: "length (children (foldl insert_child obs xs)) \<le> length (children obs) + length xs" for obs xs
  proof (induction xs arbitrary: obs)
    case Nil
    show ?case by simp
  next
    case (Cons x xs)
    have "length (children (insert_child obs x)) \<le> Suc (length (children obs))"
      by (cases x) (simp add: insert_child_def)
    with Cons[of "insert_child obs x"] show ?case by simp
  qed
  have "length (children ?o1) \<le> length pre"
    using len[of "init m" pre] by (simp add: init_def)
  with len[of ?o1 post] have "length (children (foldl insert_child ?o1 post)) < length es"
    by (simp add: assms(1))
  then show "length (children (foldl insert_child (init m) es)) < length es"
    by (simp only: eq)
qed

lemma registry_le_refl [simp]: "registry_le w w"
  by (simp add: registry_le_def)

lemma registry_le_trans: "registry_le w w1 \<Longrightarrow> registry_le w1 w2 \<Longrightarrow> registry_le w w2"
  by (simp add: registry_le_def)

lemma registry_le_idCache: "idCache w' = idCache w \<Longrightarrow> registry_le w w'"
  by (simp add: registry_le_def Library_of_def Folder_of_def Document_of_def)

lemmas slot_defs = Library_of_def Folder_of_def Document_of_def lookup_lfd_def zero_libFldDoc_def

lemma add_eq:
  "add w obs c = (obs', ix, added) \<Longrightarrow> obs' = insert_child obs (ID w c, Name w c, c)"
  using add_insert_child[of w obs c] by simp

lemma updateObjects_folder_summary:
  assumes "updateObjects_folder w p objs wfld = Return (w', objs')"
  shows "\<exists>a. Folder_of w' (FolderID wfld) = Some a
            \<and> objs' = insert_child objs (FolderID wfld, FolderName wfld, FolderPtr a)"
    and "registry_le w w'" and "sent w' = sent w"
proof -
  show "\<exists>a. Folder_of w' (FolderID wfld) = Some a
            \<and> objs' = insert_child objs (FolderID wfld, FolderName wfld, FolderPtr a)"
    using assms
    by (auto simp: updateObjects_folder_def Let_def newFolder_def slot_defs set_Embedded_def
        dest!: add_eq split: option.splits if_splits prod.splits)
  show "registry_le w w'"
    using assms
    by (auto simp: updateObjects_folder_def Let_def newFolder_def slot_defs registry_le_def
        split: option.splits if_splits prod.splits)
  show "sent w' = sent w"
    using assms
    by (auto simp: updateObjects_folder_def Let_def newFolder_def
        split: option.splits if_splits prod.splits)
qed

lemma updateObjects_document_summary:
  assumes "updateObjects_document w p objs wd = Return (w', objs')"
  shows "\<exists>a. Document_of w' (DocumentID wd) = Some a
            \<and> objs' = insert_child objs (DocumentID wd, DocumentName wd, DocumentPtr a)"
    and "registry_le w w'" and "sent w' = sent w"
proof -
  show "\<exists>a. Document_of w' (DocumentID wd) = Some a
            \<and> objs' = insert_child objs (DocumentID wd, DocumentName wd, DocumentPtr a)"
    using assms
    by (auto simp: updateObjects_document_def Let_def slot_defs
        dest!: add_eq split: option.splits if_splits prod.splits object.splits outcome.splits)
  show "registry_le w w'"
    using assms
    by (auto simp: updateObjects_document_def Let_def slot_defs registry_le_def
        split: option.splits if_splits prod.splits object.splits outcome.splits)
  show "sent w' = sent w"
    using assms
    by (auto simp: updateObjects_document_def Let_def
        split: option.splits if_splits prod.splits object.splits outcome.splits)
qed

lemma update_library_summary:
  assumes "update_library w libs wl = Return (w', libs')"
  shows "\<exists>a. Library_of w' (LibraryID wl) = Some a
            \<and> libs' = insert_child libs (LibraryID wl, LibraryName wl, LibraryPtr a)"
    and "registry_le w w'" and "sent w' = sent w" and "root_objects w' = root_objects w"
proof -
  show "\<exists>a. Library_of w' (LibraryID wl) = Some a
            \<and> libs' = insert_child libs (LibraryID wl, LibraryName wl, LibraryPtr a)"
    using assms
    by (auto simp: update_library_def Let_def newLibrary_def slot_defs
        dest!: add_eq split: option.splits if_splits prod.splits)
  show "registry_le w w'"
    using assms
    by (auto simp: update_library_def Let_def newLibrary_def slot_defs registry_le_def
        split: option.splits if_splits prod.splits)
  show "sent w' = sent w"
    using assms
    by (auto simp: update_library_def Let_def newLibrary_def
        split: option.splits if_splits prod.splits)
  show "root_objects w' = root_objects w"
    using assms
    by (auto simp: update_library_def Let_def newLibrary_def
        split: option.splits if_splits prod.splits)
qed

lemma updateObjects_folders_summary:
  "updateObjects_folders w p objs wfs = Return (w', objs') \<Longrightarrow>
     registry_le w w' \<and> sent w' = sent w
     \<and> (\<forall>w''. registry_le w' w'' \<longrightarrow>
            objs' = foldl insert_child objs (map (folder_entry w'') wfs))"
proof (induction wfs arbitrary: w objs)
  case Nil
  then show ?case by simp
next
  case (Cons wfld wfs)
  from Cons.prems obtain w1 objs1 where
    step: "updateObjects_folder w p objs wfld = Return (w1, objs1)" and
    rest: "updateObjects_folders w1 p objs1 wfs = Return (w', objs')"
    by (auto split: outcome.splits)
  from updateObjects_folder_summary[OF step] obtain a where
    a: "Folder_of w1 (FolderID wfld) = Some a"
       "objs1 = insert_child objs (FolderID wfld, FolderName wfld, FolderPtr a)"
    and le1: "registry_le w w1" and s1: "sent w1 = sent w"
    by blast
  from Cons.IH[OF rest] have
    le2: "registry_le w1 w'" and s2: "sent w' = sent w1" and
    f: "\<And>w''. registry_le w' w'' \<Longrightarrow> objs' = foldl insert_child objs1 (map (folder_entry w'') wfs)"
    by auto
  have "objs' = foldl insert_child objs (map (folder_entry w'') (wfld # wfs))"
    if "registry_le w' w''" for w''
  proof -
    have "Folder_of w'' (FolderID wfld) = Some a"
      using a(1) le2 that by (simp add: registry_le_def)
    then show ?thesis
      using f[OF that] a(2) by (simp add: folder_entry_def)
  qed
  moreover have "registry_le w w'"
    using le1 le2 by (rule registry_le_trans)
  moreover have "sent w' = sent w"
    using s1 s2 by simp
  ultimately show ?case
    by simp
qed

lemma updateObjects_documents_summary:
  "updateObjects_documents w p objs wds = Return (w', objs') \<Longrightarrow>
     registry_le w w' \<and> sent w' = sent w
     \<and> (\<forall>w''. registry_le w' w'' \<longrightarrow>
            objs' = foldl insert_child objs (map (document_entry w'') wds))"
proof (induction wds arbitrary: w objs)
  case Nil
  then show ?case by simp
next
  case (Cons wd wds)
  from Cons.prems obtain w1 objs1 where
    step: "updateObjects_document w p objs wd = Return (w1, objs1)" and
    rest: "updateObjects_documents w1 p objs1 wds = Return (w', objs')"
    by (auto split: outcome.splits)
  from updateObjects_document_summary[OF step] obtain a where
    a: "Document_of w1 (DocumentID wd) = Some a"
       "objs1 = insert_child objs (DocumentID wd, DocumentName wd, DocumentPtr a)"
    and le1: "registry_le w w1" and s1: "sent w1 = sent w"
    by blast
  from Cons.IH[OF rest] have
    le2: "registry_le w1 w'" and s2: "sent w' = sent w1" and
    f: "\<And>w''. registry_le w' w'' \<Longrightarrow> objs' = foldl insert_child objs1 (map (document_entry w'') wds)"
    by auto
  have "objs' = foldl insert_child objs (map (document_entry w'') (wd # wds))"
    if "registry_le w' w''" for w''
  proof -
    have "Document_of w'' (DocumentID wd) = Some a"
      using a(1) le2 that by (simp add: registry_le_def)
    then show ?thesis
      using f[OF that] a(2) by (simp add: document_entry_def)
  qed
  moreover have "registry_le w w'"
    using le1 le2 by (rule registry_le_trans)
  moreover have "sent w' = sent w"
    using s1 s2 by simp
  ultimately show ?case
    by simp
qed

lemma update_libraries_summary:
  "update_libraries w libs wls = Return (w', libs') \<Longrightarrow>
     registry_le w w' \<and> sent w' = sent w \<and> root_objects w' = root_objects w
     \<and> (\<forall>w''. registry_le w' w'' \<longrightarrow>
            libs' = foldl insert_child libs (map (library_entry w'') wls))"
proof (induction wls arbitrary: w libs)
  case Nil
  then show ?case by simp
next
  case (Cons wl wls)
  from Cons.prems obtain w1 libs1 where
    step: "update_library w libs wl = Return (w1, libs1)" and
    rest: "update_libraries w1 libs1 wls = Return (w', libs')"
    by (auto split: outcome.splits)
  from update_library_summary[OF step] obtain a where
    a: "Library_of w1 (LibraryID wl) = Some a"
       "libs1 = insert_child libs (LibraryID wl, LibraryName wl, LibraryPtr a)"
    and le1: "registry_le w w1" and s1: "sent w1 = sent w"
    and r1: "root_objects w1 = root_objects w"
    by blast
  from Cons.IH[OF rest] have
    le2: "registry_le w1 w'" and s2: "sent w' = sent w1" and
    r2: "root_objects w' = root_objects w1" and
    f: "\<And>w''. registry_le w' w'' \<Longrightarrow> libs' = foldl insert_child libs1 (map (library_entry w'') wls)"
    by auto
  have "libs' = foldl insert_child libs (map (library_entry w'') (wl # wls))"
    if "registry_le w' w''" for w''
  proof -
    have "Library_of w'' (LibraryID wl) = Some a"
      using a(1) le2 that by (simp add: registry_le_def)
    then show ?thesis
      using f[OF that] a(2) by (simp add: library_entry_def)
  qed
  moreover have "registry_le w w'"
    using le1 le2 by (rule registry_le_trans)
  moreover have "sent w' = sent w" "root_objects w' = root_objects w"
    using s1 s2 r1 r2 by simp_all
  ultimately show ?case
    by simp
qed

lemma updateObjects_missing_summary:
  "updateObjects_missing w objs cs = Return w' \<Longrightarrow> idCache w' = idCache w \<and> sent w' = sent w"
proof (induction cs arbitrary: w)
  case Nil
  then show ?case by simp
next
  case (Cons c cs)
  show ?case
  proof (cases "snd (comma_ok (ids objs) (ID w c))")
    case True
    with Cons.prems have "updateObjects_missing w objs cs = Return w'"
      by (simp add: Let_def)
    then show ?thesis by (rule Cons.IH)
  next
    case False
    show ?thesis
    proof (cases c)
      case The_Root
      with False Cons.prems show ?thesis by (simp add: Let_def)
    next
      case (LibraryPtr a)
      with False Cons.prems show ?thesis by (simp add: Let_def)
    next
      case (FolderPtr a)
      with False Cons.prems obtain w1 where
        "updateObjects_missing w1 objs cs = Return w'" "idCache w1 = idCache w" "sent w1 = sent w"
        by (simp add: Let_def)
      then show ?thesis using Cons.IH by metis
    next
      case (DocumentPtr a)
      with False Cons.prems obtain w1 where
        "updateObjects_missing w1 objs cs = Return w'" "idCache w1 = idCache w" "sent w1 = sent w"
        by (simp add: Let_def)
      then show ?thesis using Cons.IH by metis
    qed
  qed
qed

lemma missing_libraries_summary:
  "missing_libraries w libs cs = Return w' \<Longrightarrow> idCache w' = idCache w \<and> sent w' = sent w"
proof (induction cs arbitrary: w)
  case Nil
  then show ?case by simp
next
  case (Cons c cs)
  show ?case
  proof (cases "snd (comma_ok (ids libs) (ID w c))")
    case True
    with Cons.prems have "missing_libraries w libs cs = Return w'"
      by (simp add: Let_def)
    then show ?thesis by (rule Cons.IH)
  next
    case False
    show ?thesis
    proof (cases c)
      case The_Root
      with False Cons.prems show ?thesis by (simp add: Let_def)
    next
      case (LibraryPtr a)
      with False Cons.prems obtain w1 where
        "missing_libraries w1 libs cs = Return w'" "idCache w1 = idCache w" "sent w1 = sent w"
        by (simp add: Let_def)
      then show ?thesis using Cons.IH by metis
    next
      case (FolderPtr a)
      with False Cons.prems show ?thesis by (simp add: Let_def)
    next
      case (DocumentPtr a)
      with False Cons.prems show ?thesis by (simp add: Let_def)
    qed
  qed
qed

lemma get_set_objects [simp]: "get_objects (set_objects w op obs) op = obs"
  by (cases op) simp_all

lemma idCache_set_objects [simp]: "idCache (set_objects w op obs) = idCache w"
  by (cases op) simp_all

lemma sent_set_objects [simp]: "sent (set_objects w op obs) = sent w"
  by (cases op) simp_all

text \<open>
  What a merge leaves: the collection of the parent is the listing inserted in order,
  folders first, each entry with the object the registry has for it.
\<close>

lemma updateObjects_summary:
  assumes "updateObjects w p op wfs wds = Return (err, w')"
  shows "err = None" and "registry_le w w'" and "sent w' = sent w"
    and "get_objects w' op =
           foldl insert_child (init (int (length wfs + length wds)))
             (map (folder_entry w') wfs @ map (document_entry w') wds)"
proof -
  from assms obtain w1 objs1 w2 objs2 w3 where
    1: "updateObjects_folders w p (init (int (length wfs + length wds))) wfs = Return (w1, objs1)" and
    2: "updateObjects_documents w1 p objs1 wds = Return (w2, objs2)" and
    3: "updateObjects_missing w2 objs2 (children (get_objects w2 op)) = Return w3" and
    4: "w' = set_objects w3 op objs2" and 5: "err = None"
    by (auto simp: updateObjects_def split: outcome.splits)
  show "err = None" by (fact 5)
  note f = updateObjects_folders_summary[OF 1]
  note d = updateObjects_documents_summary[OF 2]
  note m = updateObjects_missing_summary[OF 3]
  have "idCache w' = idCache w2"
    using m by (simp add: 4)
  then have le23: "registry_le w2 w'"
    by (rule registry_le_idCache)
  have le12: "registry_le w1 w2"
    using d by simp
  have le13: "registry_le w1 w'"
    using le12 le23 by (rule registry_le_trans)
  have le01: "registry_le w w1"
    using f by simp
  show "registry_le w w'"
    using le01 le13 by (rule registry_le_trans)
  have "sent w' = sent w3"
    by (simp add: 4)
  then show "sent w' = sent w"
    using f d m by simp
  have o1: "objs1 = foldl insert_child (init (int (length wfs + length wds))) (map (folder_entry w') wfs)"
    using f le13 by blast
  have o2: "objs2 = foldl insert_child objs1 (map (document_entry w') wds)"
    using d le23 by blast
  have g: "get_objects w' op = objs2"
    by (simp add: 4)
  show "get_objects w' op =
           foldl insert_child (init (int (length wfs + length wds)))
             (map (folder_entry w') wfs @ map (document_entry w') wds)"
    unfolding g by (subst o2, subst o1) simp
qed

lemma Root_update_summary:
  assumes "Root_update rm w = Return (None, w')" and "Libraries rm w = (Inr wls, w0)"
  shows "registry_le w w'"
    and "root_objects w' = foldl insert_child (init (int (length wls))) (map (library_entry w') wls)"
proof -
  from assms obtain w1 libs w2 where
    1: "update_libraries w0 (init (int (length wls))) wls = Return (w1, libs)" and
    2: "missing_libraries w1 libs (children (root_objects w1)) = Return w2" and
    3: "w' = w2\<lparr>root_objects := libs\<rparr>"
    by (auto simp: Root_update_def split: outcome.splits)
  have 0: "idCache w0 = idCache w"
    using assms(2) by (auto simp: Libraries_def do_request_def split: response.splits)
  note l = update_libraries_summary[OF 1]
  note m = missing_libraries_summary[OF 2]
  have "idCache w' = idCache w1"
    using m by (simp add: 3)
  then have le: "registry_le w1 w'"
    by (rule registry_le_idCache)
  have "registry_le w w0"
    using 0 by (rule registry_le_idCache)
  moreover have "registry_le w0 w1"
    using l by simp
  ultimately have "registry_le w w1"
    by (rule registry_le_trans)
  then show "registry_le w w'"
    using le by (rule registry_le_trans)
  have "libs = foldl insert_child (init (int (length wls))) (map (library_entry w') wls)"
    using l le by blast
  moreover have "root_objects w' = libs"
    by (simp add: 3)
  ultimately show "root_objects w' = foldl insert_child (init (int (length wls))) (map (library_entry w') wls)"
    by (simp only:)
qed

lemma updateObjects_folders_known:
  "updateObjects_folders w p objs wfs = Return (w', objs') \<Longrightarrow> wfld \<in> set wfs \<Longrightarrow>
     \<exists>a. Folder_of w' (FolderID wfld) = Some a"
proof (induction wfs arbitrary: w objs)
  case Nil
  then show ?case by simp
next
  case (Cons x wfs)
  from Cons.prems(1) obtain w1 objs1 where
    step: "updateObjects_folder w p objs x = Return (w1, objs1)" and
    rest: "updateObjects_folders w1 p objs1 wfs = Return (w', objs')"
    by (auto split: outcome.splits)
  show ?case
  proof (cases "wfld = x")
    case True
    from updateObjects_folder_summary(1)[OF step] obtain a where "Folder_of w1 (FolderID x) = Some a"
      by blast
    moreover have "registry_le w1 w'"
      using updateObjects_folders_summary[OF rest] by simp
    ultimately show ?thesis
      using True by (auto simp: registry_le_def)
  next
    case False
    with Cons.prems(2) have "wfld \<in> set wfs" by simp
    with Cons.IH[OF rest] show ?thesis by simp
  qed
qed

lemma updateObjects_documents_known:
  "updateObjects_documents w p objs wds = Return (w', objs') \<Longrightarrow> wd \<in> set wds \<Longrightarrow>
     \<exists>a. Document_of w' (DocumentID wd) = Some a"
proof (induction wds arbitrary: w objs)
  case Nil
  then show ?case by simp
next
  case (Cons x wds)
  from Cons.prems(1) obtain w1 objs1 where
    step: "updateObjects_document w p objs x = Return (w1, objs1)" and
    rest: "updateObjects_documents w1 p objs1 wds = Return (w', objs')"
    by (auto split: outcome.splits)
  show ?case
  proof (cases "wd = x")
    case True
    from updateObjects_document_summary(1)[OF step] obtain a where "Document_of w1 (DocumentID x) = Some a"
      by blast
    moreover have "registry_le w1 w'"
      using updateObjects_documents_summary[OF rest] by simp
    ultimately show ?thesis
      using True by (auto simp: registry_le_def)
  next
    case False
    with Cons.prems(2) have "wd \<in> set wds" by simp
    with Cons.IH[OF rest] show ?thesis by simp
  qed
qed

lemma update_libraries_known:
  "update_libraries w libs wls = Return (w', libs') \<Longrightarrow> wl \<in> set wls \<Longrightarrow>
     \<exists>a. Library_of w' (LibraryID wl) = Some a"
proof (induction wls arbitrary: w libs)
  case Nil
  then show ?case by simp
next
  case (Cons x wls)
  from Cons.prems(1) obtain w1 libs1 where
    step: "update_library w libs x = Return (w1, libs1)" and
    rest: "update_libraries w1 libs1 wls = Return (w', libs')"
    by (auto split: outcome.splits)
  show ?case
  proof (cases "wl = x")
    case True
    from update_library_summary(1)[OF step] obtain a where "Library_of w1 (LibraryID x) = Some a"
      by blast
    moreover have "registry_le w1 w'"
      using update_libraries_summary[OF rest] by simp
    ultimately show ?thesis
      using True by (auto simp: registry_le_def)
  next
    case False
    with Cons.prems(2) have "wl \<in> set wls" by simp
    with Cons.IH[OF rest] show ?thesis by simp
  qed
qed

lemma updateObjects_known:
  assumes "updateObjects w p op wfs wds = Return (err, w')"
  shows "wfld \<in> set wfs \<Longrightarrow> \<exists>a. Folder_of w' (FolderID wfld) = Some a"
    and "wd \<in> set wds \<Longrightarrow> \<exists>a. Document_of w' (DocumentID wd) = Some a"
proof -
  from assms obtain w1 objs1 w2 objs2 w3 where
    1: "updateObjects_folders w p (init (int (length wfs + length wds))) wfs = Return (w1, objs1)" and
    2: "updateObjects_documents w1 p objs1 wds = Return (w2, objs2)" and
    3: "updateObjects_missing w2 objs2 (children (get_objects w2 op)) = Return w3" and
    4: "w' = set_objects w3 op objs2"
    by (auto simp: updateObjects_def split: outcome.splits)
  have "idCache w' = idCache w2"
    using updateObjects_missing_summary[OF 3] by (simp add: 4)
  then have le23: "registry_le w2 w'"
    by (rule registry_le_idCache)
  have le12: "registry_le w1 w2"
    using updateObjects_documents_summary[OF 2] by simp
  show "\<exists>a. Folder_of w' (FolderID wfld) = Some a" if "wfld \<in> set wfs"
    using updateObjects_folders_known[OF 1 that] le12 le23 by (auto simp: registry_le_def)
  show "\<exists>a. Document_of w' (DocumentID wd) = Some a" if "wd \<in> set wds"
    using updateObjects_documents_known[OF 2 that] le23 by (auto simp: registry_le_def)
qed

lemma entry_projections [simp]:
  "fst (folder_entry w wfld) = FolderID wfld" "fst (snd (folder_entry w wfld)) = FolderName wfld"
  "fst (document_entry w wd) = DocumentID wd" "fst (snd (document_entry w wd)) = DocumentName wd"
  "fst (library_entry w wl) = LibraryID wl" "fst (snd (library_entry w wl)) = LibraryName wl"
  by (simp_all add: folder_entry_def document_entry_def library_entry_def)

lemma entry_names:
  "map (fst \<circ> snd) (map (folder_entry w) wfs @ map (document_entry w) wds)
     = map FolderName wfs @ map DocumentName wds"
  by simp

lemma folder_found:
  assumes "updateObjects w p op wfs wds = Return (err, w')"
      and "wfld \<in> set wfs"
      and "distinct (map FolderID wfs)"
      and "distinct (map FolderName wfs @ map DocumentName wds)"
  shows "\<exists>a. Folder_of w' (FolderID wfld) = Some a
            \<and> ChildByID (get_objects w' op) (FolderID wfld) = Return (Some (FolderPtr a))
            \<and> ChildByName (get_objects w' op) (FolderName wfld) = Return (Some (FolderPtr a))"
proof -
  from updateObjects_known(1)[OF assms(1,2)] obtain a where a: "Folder_of w' (FolderID wfld) = Some a"
    by blast
  from assms(2) obtain xs ys where xy: "wfs = xs @ wfld # ys"
    by (auto dest: split_list)
  define es where "es = map (folder_entry w') wfs @ map (document_entry w') wds"
  have es: "es = map (folder_entry w') xs
               @ (FolderID wfld, FolderName wfld, FolderPtr a) # (map (folder_entry w') ys @ map (document_entry w') wds)"
    by (simp add: es_def xy folder_entry_def a)
  have first: "FolderID wfld \<notin> fst ` set (map (folder_entry w') xs)"
    using assms(3) by (auto simp: xy)
  have dist: "distinct (map (fst \<circ> snd) es)"
    unfolding es_def entry_names by (fact assms(4))
  have idx: "get_objects w' op = foldl insert_child (init (int (length wfs + length wds))) es"
    unfolding es_def by (rule updateObjects_summary(4)[OF assms(1)])
  show ?thesis
    using first_entry_found[OF es first dist, of "int (length wfs + length wds)"] a
    by (simp add: idx)
qed

lemma document_found:
  assumes "updateObjects w p op wfs wds = Return (err, w')"
      and "wd \<in> set wds"
      and "DocumentID wd \<notin> FolderID ` set wfs"
      and "distinct (map DocumentID wds)"
      and "distinct (map FolderName wfs @ map DocumentName wds)"
  shows "\<exists>a. Document_of w' (DocumentID wd) = Some a
            \<and> ChildByID (get_objects w' op) (DocumentID wd) = Return (Some (DocumentPtr a))
            \<and> ChildByName (get_objects w' op) (DocumentName wd) = Return (Some (DocumentPtr a))"
proof -
  from updateObjects_known(2)[OF assms(1,2)] obtain a where a: "Document_of w' (DocumentID wd) = Some a"
    by blast
  from assms(2) obtain xs ys where xy: "wds = xs @ wd # ys"
    by (auto dest: split_list)
  define es where "es = map (folder_entry w') wfs @ map (document_entry w') wds"
  have es: "es = (map (folder_entry w') wfs @ map (document_entry w') xs)
               @ (DocumentID wd, DocumentName wd, DocumentPtr a) # map (document_entry w') ys"
    by (simp add: es_def xy document_entry_def a)
  have first: "DocumentID wd \<notin> fst ` set (map (folder_entry w') wfs @ map (document_entry w') xs)"
    using assms(3,4) by (auto simp: xy)
  have dist: "distinct (map (fst \<circ> snd) es)"
    unfolding es_def entry_names by (fact assms(5))
  have idx: "get_objects w' op = foldl insert_child (init (int (length wfs + length wds))) es"
    unfolding es_def by (rule updateObjects_summary(4)[OF assms(1)])
  show ?thesis
    using first_entry_found[OF es first dist, of "int (length wfs + length wds)"] a
    by (simp add: idx)
qed

lemma document_dropped:
  assumes "updateObjects w p op wfs wds = Return (err, w')"
      and "wfld \<in> set wfs" and "wd \<in> set wds" and "FolderID wfld = DocumentID wd"
      and "distinct (map FolderName wfs @ map DocumentName wds)"
  shows "ChildByName (get_objects w' op) (DocumentName wd) = Return None"
    and "length (children (get_objects w' op)) < length wfs + length wds"
proof -
  from assms(3) obtain xs ys where xy: "wds = xs @ wd # ys"
    by (auto dest: split_list)
  define es where "es = map (folder_entry w') wfs @ map (document_entry w') wds"
  have es: "es = (map (folder_entry w') wfs @ map (document_entry w') xs)
               @ (DocumentID wd, DocumentName wd, DocumentPtr (the (Document_of w' (DocumentID wd))))
                 # map (document_entry w') ys"
    by (simp add: es_def xy document_entry_def)
  have "fst (folder_entry w' wfld) = DocumentID wd"
    using assms(4) by simp
  then have earlier: "DocumentID wd \<in> fst ` set (map (folder_entry w') wfs @ map (document_entry w') xs)"
    using assms(2) by (metis UnI1 image_eqI image_set set_append set_map)
  have dist: "distinct (map (fst \<circ> snd) es)"
    unfolding es_def entry_names by (fact assms(5))
  have idx: "get_objects w' op = foldl insert_child (init (int (length wfs + length wds))) es"
    unfolding es_def by (rule updateObjects_summary(4)[OF assms(1)])
  have len: "length es = length wfs + length wds"
    by (simp add: es_def)
  show "ChildByName (get_objects w' op) (DocumentName wd) = Return None"
    using later_entry_dropped(1)[OF es earlier dist] by (simp add: idx)
  show "length (children (get_objects w' op)) < length wfs + length wds"
    using later_entry_dropped(2)[OF es earlier dist, of "int (length wfs + length wds)"]
    by (simp add: idx len)
qed

lemma Root_update_Libraries:
  assumes "Root_update rm w = Return (err, w')"
  shows "(\<exists>e. Libraries rm w = (Inl e, w') \<and> err = Some e)
       \<or> (\<exists>wls w0. Libraries rm w = (Inr wls, w0) \<and> err = None)"
  using assms by (auto simp: Root_update_def split: prod.splits sum.splits outcome.splits)

lemma library_found:
  assumes "Root_update rm w = Return (err, w')"
      and "Libraries rm w = (Inr wls, w0)"
      and "wl \<in> set wls"
      and "distinct (map LibraryID wls)"
      and "distinct (map LibraryName wls)"
  shows "\<exists>a. Library_of w' (LibraryID wl) = Some a
            \<and> ChildByID (root_objects w') (LibraryID wl) = Return (Some (LibraryPtr a))
            \<and> ChildByName (root_objects w') (LibraryName wl) = Return (Some (LibraryPtr a))"
proof -
  from assms(1,2) have none: "err = None"
    by (auto simp: Root_update_def split: outcome.splits)
  from assms(1,2) obtain w1 libs w2 where
    1: "update_libraries w0 (init (int (length wls))) wls = Return (w1, libs)" and
    2: "missing_libraries w1 libs (children (root_objects w1)) = Return w2" and
    3: "w' = w2\<lparr>root_objects := libs\<rparr>"
    by (auto simp: Root_update_def split: outcome.splits)
  have "idCache w' = idCache w1"
    using missing_libraries_summary[OF 2] by (simp add: 3)
  then have "registry_le w1 w'"
    by (rule registry_le_idCache)
  with update_libraries_known[OF 1 assms(3)] obtain a where a: "Library_of w' (LibraryID wl) = Some a"
    by (auto simp: registry_le_def)
  from assms(3) obtain xs ys where xy: "wls = xs @ wl # ys"
    by (auto dest: split_list)
  define es where "es = map (library_entry w') wls"
  have es: "es = map (library_entry w') xs
               @ (LibraryID wl, LibraryName wl, LibraryPtr a) # map (library_entry w') ys"
    by (simp add: es_def xy library_entry_def a)
  have first: "LibraryID wl \<notin> fst ` set (map (library_entry w') xs)"
    using assms(4) by (auto simp: xy)
  have dist: "distinct (map (fst \<circ> snd) es)"
    using assms(5) by (simp add: es_def comp_def)
  have idx: "root_objects w' = foldl insert_child (init (int (length wls))) es"
    unfolding es_def using Root_update_summary(2)[of rm w w' wls w0] assms(1,2) none by simp
  show ?thesis
    using first_entry_found[OF es first dist, of "int (length wls)"] a
    by (simp add: idx)
qed

lemma Root_update_le: "Root_update rm w = Return (err, w') \<Longrightarrow> registry_le w w'"
proof -
  assume a: "Root_update rm w = Return (err, w')"
  obtain res w0 where l: "Libraries rm w = (res, w0)"
    by (cases "Libraries rm w")
  have 0: "idCache w0 = idCache w"
    using Libraries_sent[OF l] by simp
  show ?thesis
  proof (cases res)
    case (Inl e)
    with a l have "w' = w0" by (simp add: Root_update_def)
    with 0 show ?thesis by (simp add: registry_le_idCache)
  next
    case (Inr wls)
    with a l have "err = None"
      by (auto simp: Root_update_def split: outcome.splits)
    with a l Inr show ?thesis
      using Root_update_summary(1) by blast
  qed
qed

lemma Library_update_le: "Library_update rm w l = Return (err, w') \<Longrightarrow> registry_le w w'"
proof -
  assume a: "Library_update rm w l = Return (err, w')"
  obtain res w0 where l: "web_Library_Folders rm w (lib_web (lib_heap w l)) = (res, w0)"
    by (cases "web_Library_Folders rm w (lib_web (lib_heap w l))")
  have 0: "idCache w0 = idCache w"
    using web_Library_Folders_sent[OF l] by simp
  then have le0: "registry_le w w0"
    by (rule registry_le_idCache)
  show ?thesis
  proof (cases res)
    case (Inl e)
    with a l have "w' = w0" by (simp add: Library_update_def)
    with le0 show ?thesis by simp
  next
    case (Inr wfs)
    with a l have "updateObjects w0 (LibraryPtr l) (LibraryFolders l) wfs [] = Return (err, w')"
      by (simp add: Library_update_def)
    then have "registry_le w0 w'"
      by (rule updateObjects_summary(2))
    with le0 show ?thesis
      by (rule registry_le_trans)
  qed
qed

lemma after_folder_by_id_le:
  assumes "folder_by_id rm w link fid = (res, w0)"
      and "(case res of
              Inl e \<Rightarrow> Return (Some e, w0)
            | Inr wfld \<Rightarrow> updateObjects w0 p op (Folders (Embedded wfld)) (Documents (Embedded wfld)))
           = Return (err, w')"
  shows "registry_le w w'"
proof -
  have "idCache w0 = idCache w"
    using folder_by_id_sent[OF assms(1)] by simp
  then have le0: "registry_le w w0"
    by (rule registry_le_idCache)
  show ?thesis
  proof (cases res)
    case (Inl e)
    with assms(2) le0 show ?thesis by simp
  next
    case (Inr wfld)
    with assms(2) have "registry_le w0 w'"
      using updateObjects_summary(2) by simp
    with le0 show ?thesis
      by (rule registry_le_trans)
  qed
qed

lemma Folder_update_le: "Folder_update rm w f = Return (err, w') \<Longrightarrow> registry_le w w'"
proof -
  assume a: "Folder_update rm w f = Return (err, w')"
  show ?thesis
  proof (cases "DotDot (fld_heap w f)")
    case The_Root
    with a show ?thesis by (simp add: Folder_update_def Let_def)
  next
    case (DocumentPtr d)
    with a show ?thesis by (simp add: Folder_update_def Let_def)
  next
    case (LibraryPtr l)
    obtain res w0 where l: "folder_by_id rm w (lib_Links_Folders (lib_web (lib_heap w l)))
        (FolderID (fld_web (fld_heap w f))) = (res, w0)"
      by (cases "folder_by_id rm w (lib_Links_Folders (lib_web (lib_heap w l)))
        (FolderID (fld_web (fld_heap w f)))")
    show ?thesis
      using a LibraryPtr l
      by (intro after_folder_by_id_le[OF l, of "FolderPtr f" "FolderObjects f" err w'])
         (simp add: Folder_update_def Let_def web_Library_Folder_def split: sum.splits)
  next
    case (FolderPtr g)
    obtain res w0 where l: "folder_by_id rm w (fl_Folders (fld_Links (fld_web (fld_heap w g))))
        (FolderID (fld_web (fld_heap w f))) = (res, w0)"
      by (cases "folder_by_id rm w (fl_Folders (fld_Links (fld_web (fld_heap w g))))
        (FolderID (fld_web (fld_heap w f)))")
    show ?thesis
      using a FolderPtr l
      by (intro after_folder_by_id_le[OF l, of "FolderPtr f" "FolderObjects f" err w'])
         (simp add: Folder_update_def Let_def web_Folder_Folder_def split: sum.splits)
  qed
qed

lemma update_le: "update rm w p = Return (err, w') \<Longrightarrow> registry_le w w'"
  by (cases p) (auto simp: Document_update_def dest: Root_update_le Library_update_le Folder_update_le)

lemma refreshes_le: "refreshes rm w ps = Return w' \<Longrightarrow> registry_le w w'"
proof (induction ps arbitrary: w)
  case Nil
  then show ?case by simp
next
  case (Cons p ps)
  from Cons.prems obtain err w1 where 1: "update rm w p = Return (err, w1)"
    and 2: "refreshes rm w1 ps = Return w'"
    by (auto split: outcome.splits)
  from update_le[OF 1] Cons.IH[OF 2] show ?case
    by (rule registry_le_trans)
qed

lemma add_taken:
  "ids obs (ID w c) \<noteq> None \<or> names obs (Name w c) \<noteq> None \<Longrightarrow> add w obs c = (obs, 0, False)"
  by (auto simp: add_def comma_ok_def Let_def split: option.splits)


lemmas eval_defs =
  scripted_def library_named_def folder_named_def document_named_def folder_holding_def
  NewRoot_def Root_update_def Library_update_def Folder_update_def Document_update_def
  updateObjects_def updateObjects_folder_def updateObjects_document_def update_library_def
  Libraries_def web_Library_Folders_def web_Library_Folder_def web_Folder_Folder_def
  folder_by_id_def do_request_def add_def init_def comma_ok_def index_def lookup_lfd_def
  zero_libFldDoc_def updateMap_def lfd_empty_def newLibrary_def newFolder_def set_Embedded_def
  zero_web_Document_def zero_web_Library_def zero_web_Folder_def zero_objects_def
  ChildByName_def ChildByID_def ObjectByPath_def ObjectByPath_step_def Let_def

subsection \<open>Two children with one id\<close>

text \<open>
  An \<open>add\<close> of a child whose id or whose name is already a key of the collection returns
  the collection as it was, with \<open>added = false\<close>.  So a merge of a listing with distinct
  names in which a folder and a document have the same integer id, when it returns,
  returns no error and keeps the folder, which comes first: the id and the name of the
  folder find the folder, the name of the document finds nothing, and the collection
  has fewer children than the listing has entries.
\<close>

lemma merge_drops_the_document:
  "(ids obs (ID w0 c) \<noteq> None \<or> names obs (Name w0 c) \<noteq> None \<longrightarrow>
      add w0 obs c = (obs, 0, False))
   \<and> (updateObjects w p op wfs wds = Return (err, w')
       \<and> wfld \<in> set wfs \<and> wd \<in> set wds \<and> FolderID wfld = DocumentID wd
       \<and> distinct (map FolderID wfs)
       \<and> distinct (map FolderName wfs @ map DocumentName wds) \<longrightarrow>
      err = None
      \<and> (\<exists>a. ChildByID (get_objects w' op) (FolderID wfld) = Return (Some (FolderPtr a))
             \<and> ChildByName (get_objects w' op) (FolderName wfld) = Return (Some (FolderPtr a)))
      \<and> ChildByName (get_objects w' op) (DocumentName wd) = Return None
      \<and> length (children (get_objects w' op)) < length wfs + length wds)"
proof (intro conjI impI)
  assume "ids obs (ID w0 c) \<noteq> None \<or> names obs (Name w0 c) \<noteq> None"
  then show "add w0 obs c = (obs, 0, False)"
    by (rule add_taken)
next
  assume a: "updateObjects w p op wfs wds = Return (err, w')
       \<and> wfld \<in> set wfs \<and> wd \<in> set wds \<and> FolderID wfld = DocumentID wd
       \<and> distinct (map FolderID wfs)
       \<and> distinct (map FolderName wfs @ map DocumentName wds)"
  then have u: "updateObjects w p op wfs wds = Return (err, w')"
    and f: "wfld \<in> set wfs" and d: "wd \<in> set wds" and e: "FolderID wfld = DocumentID wd"
    and di: "distinct (map FolderID wfs)"
    and dn: "distinct (map FolderName wfs @ map DocumentName wds)"
    by simp_all
  show "err = None"
    using u by (rule updateObjects_summary(1))
  show "\<exists>a. ChildByID (get_objects w' op) (FolderID wfld) = Return (Some (FolderPtr a))
             \<and> ChildByName (get_objects w' op) (FolderName wfld) = Return (Some (FolderPtr a))"
    using folder_found[OF u f di dn] by blast
  show "ChildByName (get_objects w' op) (DocumentName wd) = Return None"
    using u f d e dn by (rule document_dropped(1))
  show "length (children (get_objects w' op)) < length wfs + length wds"
    using u f d e dn by (rule document_dropped(2))
qed

text \<open>
  Claim C10 at a folder \<open>A\<close> whose listing holds a folder \<open>S\<close> and a document \<open>x\<close> with the
  id 5.  When \<open>A\<close> has listed \<open>S\<close> before and then no longer, \<open>missing\<close> holds a bundle
  for the id 5 with the folder and no document; the registry \<open>idCache\<close> has no document
  for the id either, so no document is built and the refresh panics on a nil pointer
  instead of dropping the document.  When \<open>S\<close> has not gone missing, the same listing is
  merged without an error: the folder is kept and the document is not in the collection.
\<close>

theorem colliding_document_panics_after_tombstone:
  "(let listing = FolderJSON (folder_holding 10 ''A'' [document_named 5 ''x''] [folder_named 5 ''S'']);
        rm = scripted
          [LibrariesJSON [library_named 1 ''L''],
           FoldersJSON [folder_named 10 ''A''],
           FolderJSON (folder_holding 10 ''A'' [] [folder_named 5 ''S'']),
           FolderJSON (folder_holding 10 ''A'' [] []),
           listing];
        rm' = scripted
          [LibrariesJSON [library_named 1 ''L''],
           FoldersJSON [folder_named 10 ''A''],
           FolderJSON (folder_holding 10 ''A'' [] [folder_named 5 ''S'']),
           listing]
    in (case refreshes rm NewRoot [The_Root, LibraryPtr 0, FolderPtr 1, FolderPtr 1] of
          Panicked e \<Rightarrow> False
        | Return w \<Rightarrow>
            lfd_Folder (lookup_lfd (missing w) 5) = Some 2
            \<and> lfd_Document (lookup_lfd (missing w) 5) = None
            \<and> lfd_Folder (lookup_lfd (idCache w) 5) = Some 2
            \<and> lfd_Document (lookup_lfd (idCache w) 5) = None
            \<and> update rm w (FolderPtr 1) = Panicked NilPointerDereference)
     \<and> (case refreshes rm' NewRoot [The_Root, LibraryPtr 0, FolderPtr 1] of
          Panicked e \<Rightarrow> False
        | Return w \<Rightarrow>
            missing w 5 = None
            \<and> (case update rm' w (FolderPtr 1) of
                  Return (None, w') \<Rightarrow>
                    ChildByID (fld_objects (fld_heap w' 1)) 5 = Return (Some (FolderPtr 2))
                    \<and> ChildByName (fld_objects (fld_heap w' 1)) ''S'' = Return (Some (FolderPtr 2))
                    \<and> ChildByName (fld_objects (fld_heap w' 1)) ''x'' = Return None
                    \<and> children (fld_objects (fld_heap w' 1)) = [FolderPtr 2]
                | _ \<Rightarrow> False)))"
  by (simp add: eval_defs)

subsection \<open>The registry of a tree built by refreshes\<close>

text \<open>
  What one turn of each loop of a merge does to the registry and to the heaps, given the
  object the registry holds for the id afterwards.
\<close>

lemma registry_ok_NewRoot: "registry_ok NewRoot"
  by (simp add: registry_ok_def keys_ok_def missing_ok_def children_ok_def NewRoot_def
        slot_defs init_def zero_objects_def)

lemma folder_step:
  assumes "updateObjects_folder w p objs wfld = Return (w', objs')"
      and "Folder_of w' (FolderID wfld) = Some a"
  shows "(case Folder_of w (FolderID wfld) of
            Some b \<Rightarrow> a = b \<and> next_addr w' = next_addr w
                      \<and> fld_objects (fld_heap w' a) = fld_objects (fld_heap w a)
          | None \<Rightarrow> a = next_addr w \<and> next_addr w' = Suc (next_addr w)
                    \<and> children (fld_objects (fld_heap w' a)) = [])"
    and "idCache w' = (idCache w)(FolderID wfld \<mapsto>
            (lookup_lfd (idCache w) (FolderID wfld))\<lparr>lfd_Folder := Some a\<rparr>)"
    and "fld_web (fld_heap w' a) = set_Embedded wfld (Embedded (fld_web (fld_heap w' a)))"
    and "\<forall>b. b \<noteq> a \<longrightarrow> fld_heap w' b = fld_heap w b"
    and "lib_heap w' = lib_heap w" and "doc_heap w' = doc_heap w"
    and "root_objects w' = root_objects w"
    and "\<forall>j b. lfd_Library (lookup_lfd (missing w') j) = Some b \<longrightarrow>
           lfd_Library (lookup_lfd (missing w) j) = Some b"
    and "\<forall>j b. lfd_Document (lookup_lfd (missing w') j) = Some b \<longrightarrow>
           lfd_Document (lookup_lfd (missing w) j) = Some b"
proof -
  note d = updateObjects_folder_def Let_def newFolder_def slot_defs set_Embedded_def init_def
  show "(case Folder_of w (FolderID wfld) of
            Some b \<Rightarrow> a = b \<and> next_addr w' = next_addr w
                      \<and> fld_objects (fld_heap w' a) = fld_objects (fld_heap w a)
          | None \<Rightarrow> a = next_addr w \<and> next_addr w' = Suc (next_addr w)
                    \<and> children (fld_objects (fld_heap w' a)) = [])"
    using assms by (auto simp: d split: option.splits if_splits prod.splits)
  show "idCache w' = (idCache w)(FolderID wfld \<mapsto>
            (lookup_lfd (idCache w) (FolderID wfld))\<lparr>lfd_Folder := Some a\<rparr>)"
    using assms by (auto simp: d split: option.splits if_splits prod.splits)
  show "fld_web (fld_heap w' a) = set_Embedded wfld (Embedded (fld_web (fld_heap w' a)))"
    using assms by (auto simp: d split: option.splits if_splits prod.splits)
  show "\<forall>b. b \<noteq> a \<longrightarrow> fld_heap w' b = fld_heap w b"
    using assms by (auto simp: d split: option.splits if_splits prod.splits)
  show "lib_heap w' = lib_heap w" "doc_heap w' = doc_heap w" "root_objects w' = root_objects w"
    using assms by (auto simp: d split: option.splits if_splits prod.splits)
  show "\<forall>j b. lfd_Library (lookup_lfd (missing w') j) = Some b \<longrightarrow>
           lfd_Library (lookup_lfd (missing w) j) = Some b"
    using assms by (auto simp: d updateMap_def lfd_empty_def split: option.splits if_splits prod.splits)
  show "\<forall>j b. lfd_Document (lookup_lfd (missing w') j) = Some b \<longrightarrow>
           lfd_Document (lookup_lfd (missing w) j) = Some b"
    using assms by (auto simp: d updateMap_def lfd_empty_def split: option.splits if_splits prod.splits)
qed


lemma missing_ok_Document:
  "missing_ok w \<Longrightarrow> Document_of w i = None \<Longrightarrow> lfd_Document (lookup_lfd (missing w) i) = None"
  by (cases "lfd_Document (lookup_lfd (missing w) i)") (auto simp: missing_ok_def)

lemma missing_ok_Library:
  "missing_ok w \<Longrightarrow> Library_of w i = None \<Longrightarrow> lfd_Library (lookup_lfd (missing w) i) = None"
  by (cases "lfd_Library (lookup_lfd (missing w) i)") (auto simp: missing_ok_def)

lemma document_step:
  assumes "updateObjects_document w p objs wd = Return (w', objs')"
      and "Document_of w' (DocumentID wd) = Some a"
      and "missing_ok w"
  shows "(case Document_of w (DocumentID wd) of
            Some b \<Rightarrow> a = b \<and> next_addr w' = next_addr w
          | None \<Rightarrow> a = next_addr w \<and> next_addr w' = Suc (next_addr w))"
    and "idCache w' = (idCache w)(DocumentID wd \<mapsto>
            (lookup_lfd (idCache w) (DocumentID wd))\<lparr>lfd_Document := Some a\<rparr>)"
    and "doc_web (doc_heap w' a) = wd"
    and "\<forall>b. b \<noteq> a \<longrightarrow> doc_heap w' b = doc_heap w b"
    and "lib_heap w' = lib_heap w" and "fld_heap w' = fld_heap w"
    and "root_objects w' = root_objects w"
    and "missing w' = missing w"
proof -
  note d = updateObjects_document_def Let_def slot_defs
  note m = missing_ok_Document[OF assms(3), of "DocumentID wd"]
  show "(case Document_of w (DocumentID wd) of
            Some b \<Rightarrow> a = b \<and> next_addr w' = next_addr w
          | None \<Rightarrow> a = next_addr w \<and> next_addr w' = Suc (next_addr w))"
    using assms(1,2) m
    by (auto simp: d split: option.splits if_splits prod.splits object.splits outcome.splits)
  show "idCache w' = (idCache w)(DocumentID wd \<mapsto>
            (lookup_lfd (idCache w) (DocumentID wd))\<lparr>lfd_Document := Some a\<rparr>)"
    using assms(1,2) m
    by (auto simp: d split: option.splits if_splits prod.splits object.splits outcome.splits)
  show "doc_web (doc_heap w' a) = wd"
    using assms(1,2) m
    by (auto simp: d split: option.splits if_splits prod.splits object.splits outcome.splits)
  show "\<forall>b. b \<noteq> a \<longrightarrow> doc_heap w' b = doc_heap w b"
    using assms(1,2) m
    by (auto simp: d split: option.splits if_splits prod.splits object.splits outcome.splits)
  show "lib_heap w' = lib_heap w" "fld_heap w' = fld_heap w" "root_objects w' = root_objects w"
    using assms(1,2) m
    by (auto simp: d split: option.splits if_splits prod.splits object.splits outcome.splits)
  show "missing w' = missing w"
    using assms(1,2) m
    by (auto simp: d split: option.splits if_splits prod.splits object.splits outcome.splits)
qed

lemma library_step:
  assumes "update_library w libs wl = Return (w', libs')"
      and "Library_of w' (LibraryID wl) = Some a"
      and "missing_ok w"
  shows "(case Library_of w (LibraryID wl) of
            Some b \<Rightarrow> a = b \<and> next_addr w' = next_addr w
                      \<and> lib_folders (lib_heap w' a) = lib_folders (lib_heap w a)
          | None \<Rightarrow> a = next_addr w \<and> next_addr w' = Suc (next_addr w)
                    \<and> children (lib_folders (lib_heap w' a)) = [])"
    and "idCache w' = (idCache w)(LibraryID wl \<mapsto>
            (lookup_lfd (idCache w) (LibraryID wl))\<lparr>lfd_Library := Some a\<rparr>)"
    and "lib_web (lib_heap w' a) = wl"
    and "\<forall>b. b \<noteq> a \<longrightarrow> lib_heap w' b = lib_heap w b"
    and "fld_heap w' = fld_heap w" and "doc_heap w' = doc_heap w"
    and "root_objects w' = root_objects w"
    and "missing w' = missing w"
proof -
  note d = update_library_def Let_def newLibrary_def slot_defs init_def
  note m = missing_ok_Library[OF assms(3), of "LibraryID wl"]
  show "(case Library_of w (LibraryID wl) of
            Some b \<Rightarrow> a = b \<and> next_addr w' = next_addr w
                      \<and> lib_folders (lib_heap w' a) = lib_folders (lib_heap w a)
          | None \<Rightarrow> a = next_addr w \<and> next_addr w' = Suc (next_addr w)
                    \<and> children (lib_folders (lib_heap w' a)) = [])"
    using assms(1,2) m by (auto simp: d split: option.splits if_splits prod.splits)
  show "idCache w' = (idCache w)(LibraryID wl \<mapsto>
            (lookup_lfd (idCache w) (LibraryID wl))\<lparr>lfd_Library := Some a\<rparr>)"
    using assms(1,2) m by (auto simp: d split: option.splits if_splits prod.splits)
  show "lib_web (lib_heap w' a) = wl"
    using assms(1,2) m by (auto simp: d split: option.splits if_splits prod.splits)
  show "\<forall>b. b \<noteq> a \<longrightarrow> lib_heap w' b = lib_heap w b"
    using assms(1,2) m by (auto simp: d split: option.splits if_splits prod.splits)
  show "fld_heap w' = fld_heap w" "doc_heap w' = doc_heap w" "root_objects w' = root_objects w"
    using assms(1,2) m by (auto simp: d split: option.splits if_splits prod.splits)
  show "missing w' = missing w"
    using assms(1,2) m by (auto simp: d split: option.splits if_splits prod.splits)
qed

lemma slots_after_Folder:
  assumes "idCache w' = (idCache w)(i \<mapsto> (lookup_lfd (idCache w) i)\<lparr>lfd_Folder := Some a\<rparr>)"
  shows "Library_of w' j = Library_of w j" and "Document_of w' j = Document_of w j"
    and "Folder_of w' j = (if j = i then Some a else Folder_of w j)"
  using assms by (simp_all add: Library_of_def Folder_of_def Document_of_def lookup_lfd_def)

lemma slots_after_Document:
  assumes "idCache w' = (idCache w)(i \<mapsto> (lookup_lfd (idCache w) i)\<lparr>lfd_Document := Some a\<rparr>)"
  shows "Library_of w' j = Library_of w j" and "Folder_of w' j = Folder_of w j"
    and "Document_of w' j = (if j = i then Some a else Document_of w j)"
  using assms by (simp_all add: Library_of_def Folder_of_def Document_of_def lookup_lfd_def)

lemma slots_after_Library:
  assumes "idCache w' = (idCache w)(i \<mapsto> (lookup_lfd (idCache w) i)\<lparr>lfd_Library := Some a\<rparr>)"
  shows "Folder_of w' j = Folder_of w j" and "Document_of w' j = Document_of w j"
    and "Library_of w' j = (if j = i then Some a else Library_of w j)"
  using assms by (simp_all add: Library_of_def Folder_of_def Document_of_def lookup_lfd_def)

lemma keys_okD:
  assumes "keys_ok w"
  shows "Library_of w i = Some a \<Longrightarrow> a < next_addr w \<and> LibraryID (lib_web (lib_heap w a)) = i"
    and "Folder_of w i = Some a \<Longrightarrow> a < next_addr w \<and> FolderID (fld_web (fld_heap w a)) = i"
    and "Document_of w i = Some a \<Longrightarrow> a < next_addr w \<and> DocumentID (doc_web (doc_heap w a)) = i"
  using assms by (simp_all add: keys_ok_def)

lemma children_okD:
  assumes "children_ok w"
  shows "c \<in> set (children (root_objects w)) \<Longrightarrow> registered w c"
    and "c \<in> set (children (lib_folders (lib_heap w l))) \<Longrightarrow> registered w c"
    and "c \<in> set (children (fld_objects (fld_heap w f))) \<Longrightarrow> registered w c"
  using assms by (simp_all add: children_ok_def)

lemma folder_kind_step_ok:
  assumes ok: "registry_ok w"
    and idc: "idCache w' = (idCache w)(i \<mapsto> (lookup_lfd (idCache w) i)\<lparr>lfd_Folder := Some a\<rparr>)"
    and a: "(case Folder_of w i of
               Some b \<Rightarrow> a = b \<and> next_addr w' = next_addr w
                         \<and> fld_objects (fld_heap w' a) = fld_objects (fld_heap w a)
             | None \<Rightarrow> a = next_addr w \<and> next_addr w' = Suc (next_addr w)
                       \<and> children (fld_objects (fld_heap w' a)) = [])"
    and fid: "FolderID (fld_web (fld_heap w' a)) = i"
    and frame: "\<forall>b. b \<noteq> a \<longrightarrow> fld_heap w' b = fld_heap w b"
    and same: "lib_heap w' = lib_heap w" "doc_heap w' = doc_heap w" "root_objects w' = root_objects w"
    and miss: "\<forall>j b. lfd_Library (lookup_lfd (missing w') j) = Some b \<longrightarrow>
                 lfd_Library (lookup_lfd (missing w) j) = Some b"
              "\<forall>j b. lfd_Document (lookup_lfd (missing w') j) = Some b \<longrightarrow>
                 lfd_Document (lookup_lfd (missing w) j) = Some b"
  shows "registry_ok w'"
proof -
  from ok have k: "keys_ok w" and m: "missing_ok w" and c: "children_ok w"
    by (simp_all add: registry_ok_def)
  note s = slots_after_Folder[OF idc]
  have na: "next_addr w \<le> next_addr w'"
    using a by (auto split: option.splits)
  have old: "Folder_of w i = Some a" if "a < next_addr w"
    using a that by (auto split: option.splits)
  have a_lt: "a < next_addr w'"
    using a keys_okD(2)[OF k, of i] by (auto split: option.splits)
  have other: "b \<noteq> a" if "Folder_of w j = Some b" "j \<noteq> i" for j b
  proof
    assume "b = a"
    with that(1) keys_okD(2)[OF k, of j a] have "a < next_addr w" "FolderID (fld_web (fld_heap w a)) = j"
      by simp_all
    moreover from old[OF this(1)] keys_okD(2)[OF k, of i a] have "FolderID (fld_web (fld_heap w a)) = i"
      by simp
    ultimately show False using that(2) by simp
  qed
  have keys: "keys_ok w'"
    unfolding keys_ok_def
  proof (intro conjI allI impI)
    fix j b assume "Library_of w' j = Some b"
    then have "Library_of w j = Some b" by (simp add: s)
    from keys_okD(1)[OF k this] na
    show "b < next_addr w'" "LibraryID (lib_web (lib_heap w' b)) = j"
      by (simp_all add: same)
  next
    fix j b assume "Document_of w' j = Some b"
    then have "Document_of w j = Some b" by (simp add: s)
    from keys_okD(3)[OF k this] na
    show "b < next_addr w'" "DocumentID (doc_web (doc_heap w' b)) = j"
      by (simp_all add: same)
  next
    fix j b assume f: "Folder_of w' j = Some b"
    have "b < next_addr w' \<and> FolderID (fld_web (fld_heap w' b)) = j"
    proof (cases "j = i")
      case True
      with f have "b = a" by (simp add: s)
      with a_lt fid True show ?thesis by simp
    next
      case False
      with f have o: "Folder_of w j = Some b" by (simp add: s)
      from other[OF o False] frame have "fld_heap w' b = fld_heap w b" by simp
      with keys_okD(2)[OF k o] na show ?thesis by simp
    qed
    then show "b < next_addr w'" "FolderID (fld_web (fld_heap w' b)) = j"
      by simp_all
  qed
  have miss': "missing_ok w'"
    unfolding missing_ok_def using m miss by (simp add: s missing_ok_def)
  have R: "registered w' x" if "registered w x" for x
  proof (cases x)
    case The_Root
    then show ?thesis by simp
  next
    case (LibraryPtr b)
    with that show ?thesis by (simp add: s same)
  next
    case (DocumentPtr b)
    with that show ?thesis by (simp add: s same)
  next
    case (FolderPtr b)
    define j where "j = FolderID (fld_web (fld_heap w b))"
    from that FolderPtr have o: "Folder_of w j = Some b"
      by (simp add: j_def)
    show ?thesis
    proof (cases "b = a")
      case True
      then show ?thesis
        using FolderPtr fid by (simp add: s)
    next
      case False
      with frame have h: "fld_heap w' b = fld_heap w b" by simp
      have "j \<noteq> i"
      proof
        assume "j = i"
        with o a have "a = b" by simp
        with False show False by simp
      qed
      then show ?thesis
        using FolderPtr o by (simp add: h s j_def)
    qed
  qed
  have ch: "children_ok w'"
    unfolding children_ok_def
  proof (intro conjI allI ballI)
    fix x assume "x \<in> set (children (root_objects w'))"
    then show "registered w' x"
      using children_okD(1)[OF c] R by (simp add: same)
  next
    fix l x assume "x \<in> set (children (lib_folders (lib_heap w' l)))"
    then show "registered w' x"
      using children_okD(2)[OF c] R by (simp add: same)
  next
    fix f x assume x: "x \<in> set (children (fld_objects (fld_heap w' f)))"
    show "registered w' x"
    proof (cases "f = a")
      case False
      with frame x have "x \<in> set (children (fld_objects (fld_heap w f)))" by simp
      then show ?thesis
        using children_okD(3)[OF c] R by blast
    next
      case True
      show ?thesis
      proof (cases "Folder_of w i")
        case None
        with a x True show ?thesis by auto
      next
        case (Some b)
        with a x True have "x \<in> set (children (fld_objects (fld_heap w a)))" by auto
        then show ?thesis
          using children_okD(3)[OF c] R by blast
      qed
    qed
  qed
  show ?thesis
    using keys miss' ch by (simp add: registry_ok_def)
qed

lemma document_kind_step_ok:
  assumes ok: "registry_ok w"
    and idc: "idCache w' = (idCache w)(i \<mapsto> (lookup_lfd (idCache w) i)\<lparr>lfd_Document := Some a\<rparr>)"
    and a: "(case Document_of w i of
               Some b \<Rightarrow> a = b \<and> next_addr w' = next_addr w
             | None \<Rightarrow> a = next_addr w \<and> next_addr w' = Suc (next_addr w))"
    and did: "DocumentID (doc_web (doc_heap w' a)) = i"
    and frame: "\<forall>b. b \<noteq> a \<longrightarrow> doc_heap w' b = doc_heap w b"
    and same: "lib_heap w' = lib_heap w" "fld_heap w' = fld_heap w" "root_objects w' = root_objects w"
    and miss: "missing w' = missing w"
  shows "registry_ok w'"
proof -
  from ok have k: "keys_ok w" and m: "missing_ok w" and c: "children_ok w"
    by (simp_all add: registry_ok_def)
  note s = slots_after_Document[OF idc]
  have na: "next_addr w \<le> next_addr w'"
    using a by (auto split: option.splits)
  have old: "Document_of w i = Some a" if "a < next_addr w"
    using a that by (auto split: option.splits)
  have a_lt: "a < next_addr w'"
    using a keys_okD(3)[OF k, of i] by (auto split: option.splits)
  have other: "b \<noteq> a" if "Document_of w j = Some b" "j \<noteq> i" for j b
  proof
    assume "b = a"
    with that(1) keys_okD(3)[OF k, of j a] have "a < next_addr w" "DocumentID (doc_web (doc_heap w a)) = j"
      by simp_all
    moreover from old[OF this(1)] keys_okD(3)[OF k, of i a] have "DocumentID (doc_web (doc_heap w a)) = i"
      by simp
    ultimately show False using that(2) by simp
  qed
  have keys: "keys_ok w'"
    unfolding keys_ok_def
  proof (intro conjI allI impI)
    fix j b assume "Library_of w' j = Some b"
    then have "Library_of w j = Some b" by (simp add: s)
    from keys_okD(1)[OF k this] na
    show "b < next_addr w'" "LibraryID (lib_web (lib_heap w' b)) = j"
      by (simp_all add: same)
  next
    fix j b assume "Folder_of w' j = Some b"
    then have "Folder_of w j = Some b" by (simp add: s)
    from keys_okD(2)[OF k this] na
    show "b < next_addr w'" "FolderID (fld_web (fld_heap w' b)) = j"
      by (simp_all add: same)
  next
    fix j b assume f: "Document_of w' j = Some b"
    have "b < next_addr w' \<and> DocumentID (doc_web (doc_heap w' b)) = j"
    proof (cases "j = i")
      case True
      with f have "b = a" by (simp add: s)
      with a_lt did True show ?thesis by simp
    next
      case False
      with f have o: "Document_of w j = Some b" by (simp add: s)
      from other[OF o False] frame have "doc_heap w' b = doc_heap w b" by simp
      with keys_okD(3)[OF k o] na show ?thesis by simp
    qed
    then show "b < next_addr w'" "DocumentID (doc_web (doc_heap w' b)) = j"
      by simp_all
  qed
  have miss': "missing_ok w'"
  proof -
    have "Document_of w j = Some b \<Longrightarrow> Document_of w' j = Some b" for j b
      using a by (auto simp: s split: option.splits)
    then show ?thesis
      using m by (simp add: missing_ok_def miss s)
  qed
  have R: "registered w' x" if "registered w x" for x
  proof (cases x)
    case The_Root
    then show ?thesis by simp
  next
    case (LibraryPtr b)
    with that show ?thesis by (simp add: s same)
  next
    case (FolderPtr b)
    with that show ?thesis by (simp add: s same)
  next
    case (DocumentPtr b)
    define j where "j = DocumentID (doc_web (doc_heap w b))"
    from that DocumentPtr have o: "Document_of w j = Some b"
      by (simp add: j_def)
    show ?thesis
    proof (cases "b = a")
      case True
      then show ?thesis
        using DocumentPtr did by (simp add: s)
    next
      case False
      with frame have h: "doc_heap w' b = doc_heap w b" by simp
      have "j \<noteq> i"
      proof
        assume "j = i"
        with o a have "a = b" by simp
        with False show False by simp
      qed
      then show ?thesis
        using DocumentPtr o by (simp add: h s j_def)
    qed
  qed
  have ch: "children_ok w'"
    unfolding children_ok_def
  proof (intro conjI allI ballI)
    fix x assume "x \<in> set (children (root_objects w'))"
    then show "registered w' x"
      using children_okD(1)[OF c] R by (simp add: same)
  next
    fix l x assume "x \<in> set (children (lib_folders (lib_heap w' l)))"
    then show "registered w' x"
      using children_okD(2)[OF c] R by (simp add: same)
  next
    fix f x assume x: "x \<in> set (children (fld_objects (fld_heap w' f)))"
    then show "registered w' x"
      using children_okD(3)[OF c] R by (simp add: same)
  qed
  show ?thesis
    using keys miss' ch by (simp add: registry_ok_def)
qed

lemma library_kind_step_ok:
  assumes ok: "registry_ok w"
    and idc: "idCache w' = (idCache w)(i \<mapsto> (lookup_lfd (idCache w) i)\<lparr>lfd_Library := Some a\<rparr>)"
    and a: "(case Library_of w i of
               Some b \<Rightarrow> a = b \<and> next_addr w' = next_addr w
                         \<and> lib_folders (lib_heap w' a) = lib_folders (lib_heap w a)
             | None \<Rightarrow> a = next_addr w \<and> next_addr w' = Suc (next_addr w)
                       \<and> children (lib_folders (lib_heap w' a)) = [])"
    and lid: "LibraryID (lib_web (lib_heap w' a)) = i"
    and frame: "\<forall>b. b \<noteq> a \<longrightarrow> lib_heap w' b = lib_heap w b"
    and same: "fld_heap w' = fld_heap w" "doc_heap w' = doc_heap w" "root_objects w' = root_objects w"
    and miss: "missing w' = missing w"
  shows "registry_ok w'"
proof -
  from ok have k: "keys_ok w" and m: "missing_ok w" and c: "children_ok w"
    by (simp_all add: registry_ok_def)
  note s = slots_after_Library[OF idc]
  have na: "next_addr w \<le> next_addr w'"
    using a by (auto split: option.splits)
  have old: "Library_of w i = Some a" if "a < next_addr w"
    using a that by (auto split: option.splits)
  have a_lt: "a < next_addr w'"
    using a keys_okD(1)[OF k, of i] by (auto split: option.splits)
  have other: "b \<noteq> a" if "Library_of w j = Some b" "j \<noteq> i" for j b
  proof
    assume "b = a"
    with that(1) keys_okD(1)[OF k, of j a] have "a < next_addr w" "LibraryID (lib_web (lib_heap w a)) = j"
      by simp_all
    moreover from old[OF this(1)] keys_okD(1)[OF k, of i a] have "LibraryID (lib_web (lib_heap w a)) = i"
      by simp
    ultimately show False using that(2) by simp
  qed
  have keys: "keys_ok w'"
    unfolding keys_ok_def
  proof (intro conjI allI impI)
    fix j b assume "Folder_of w' j = Some b"
    then have "Folder_of w j = Some b" by (simp add: s)
    from keys_okD(2)[OF k this] na
    show "b < next_addr w'" "FolderID (fld_web (fld_heap w' b)) = j"
      by (simp_all add: same)
  next
    fix j b assume "Document_of w' j = Some b"
    then have "Document_of w j = Some b" by (simp add: s)
    from keys_okD(3)[OF k this] na
    show "b < next_addr w'" "DocumentID (doc_web (doc_heap w' b)) = j"
      by (simp_all add: same)
  next
    fix j b assume f: "Library_of w' j = Some b"
    have "b < next_addr w' \<and> LibraryID (lib_web (lib_heap w' b)) = j"
    proof (cases "j = i")
      case True
      with f have "b = a" by (simp add: s)
      with a_lt lid True show ?thesis by simp
    next
      case False
      with f have o: "Library_of w j = Some b" by (simp add: s)
      from other[OF o False] frame have "lib_heap w' b = lib_heap w b" by simp
      with keys_okD(1)[OF k o] na show ?thesis by simp
    qed
    then show "b < next_addr w'" "LibraryID (lib_web (lib_heap w' b)) = j"
      by simp_all
  qed
  have miss': "missing_ok w'"
  proof -
    have "Library_of w j = Some b \<Longrightarrow> Library_of w' j = Some b" for j b
      using a by (auto simp: s split: option.splits)
    then show ?thesis
      using m by (simp add: missing_ok_def miss s)
  qed
  have R: "registered w' x" if "registered w x" for x
  proof (cases x)
    case The_Root
    then show ?thesis by simp
  next
    case (FolderPtr b)
    with that show ?thesis by (simp add: s same)
  next
    case (DocumentPtr b)
    with that show ?thesis by (simp add: s same)
  next
    case (LibraryPtr b)
    define j where "j = LibraryID (lib_web (lib_heap w b))"
    from that LibraryPtr have o: "Library_of w j = Some b"
      by (simp add: j_def)
    show ?thesis
    proof (cases "b = a")
      case True
      then show ?thesis
        using LibraryPtr lid by (simp add: s)
    next
      case False
      with frame have h: "lib_heap w' b = lib_heap w b" by simp
      have "j \<noteq> i"
      proof
        assume "j = i"
        with o a have "a = b" by simp
        with False show False by simp
      qed
      then show ?thesis
        using LibraryPtr o by (simp add: h s j_def)
    qed
  qed
  have ch: "children_ok w'"
    unfolding children_ok_def
  proof (intro conjI allI ballI)
    fix x assume "x \<in> set (children (root_objects w'))"
    then show "registered w' x"
      using children_okD(1)[OF c] R by (simp add: same)
  next
    fix f x assume "x \<in> set (children (fld_objects (fld_heap w' f)))"
    then show "registered w' x"
      using children_okD(3)[OF c] R by (simp add: same)
  next
    fix l x assume x: "x \<in> set (children (lib_folders (lib_heap w' l)))"
    show "registered w' x"
    proof (cases "l = a")
      case False
      with frame x have "x \<in> set (children (lib_folders (lib_heap w l)))" by simp
      then show ?thesis
        using children_okD(2)[OF c] R by blast
    next
      case True
      show ?thesis
      proof (cases "Library_of w i")
        case None
        with a x True show ?thesis by auto
      next
        case (Some b)
        with a x True have "x \<in> set (children (lib_folders (lib_heap w a)))" by auto
        then show ?thesis
          using children_okD(2)[OF c] R by blast
      qed
    qed
  qed
  show ?thesis
    using keys miss' ch by (simp add: registry_ok_def)
qed

lemma folder_step_ok:
  assumes "registry_ok w" and "updateObjects_folder w p objs wfld = Return (w', objs')"
  shows "registry_ok w'"
proof -
  from updateObjects_folder_summary(1)[OF assms(2)] obtain a where
    a: "Folder_of w' (FolderID wfld) = Some a"
    by blast
  note st = folder_step[OF assms(2) a]
  have "FolderID (fld_web (fld_heap w' a)) = FolderID wfld"
    by (subst st(3)) (simp add: set_Embedded_def)
  with assms(1) st show ?thesis
    by (intro folder_kind_step_ok[of w w' "FolderID wfld" a])
qed

lemma document_step_ok:
  assumes "registry_ok w" and "updateObjects_document w p objs wd = Return (w', objs')"
  shows "registry_ok w'"
proof -
  from updateObjects_document_summary(1)[OF assms(2)] obtain a where
    a: "Document_of w' (DocumentID wd) = Some a"
    by blast
  have m: "missing_ok w"
    using assms(1) by (simp add: registry_ok_def)
  note st = document_step[OF assms(2) a m]
  have "DocumentID (doc_web (doc_heap w' a)) = DocumentID wd"
    by (simp add: st(3))
  with assms(1) st show ?thesis
    by (intro document_kind_step_ok[of w w' "DocumentID wd" a])
qed

lemma library_step_ok:
  assumes "registry_ok w" and "update_library w libs wl = Return (w', libs')"
  shows "registry_ok w'"
proof -
  from update_library_summary(1)[OF assms(2)] obtain a where
    a: "Library_of w' (LibraryID wl) = Some a"
    by blast
  have m: "missing_ok w"
    using assms(1) by (simp add: registry_ok_def)
  note st = library_step[OF assms(2) a m]
  have "LibraryID (lib_web (lib_heap w' a)) = LibraryID wl"
    by (simp add: st(3))
  with assms(1) st show ?thesis
    by (intro library_kind_step_ok[of w w' "LibraryID wl" a])
qed

lemma folders_ok:
  "registry_ok w \<Longrightarrow> updateObjects_folders w p objs wfs = Return (w', objs') \<Longrightarrow> registry_ok w'"
proof (induction wfs arbitrary: w objs)
  case Nil
  then show ?case by simp
next
  case (Cons x wfs)
  from Cons.prems(2) obtain w1 objs1 where
    step: "updateObjects_folder w p objs x = Return (w1, objs1)" and
    rest: "updateObjects_folders w1 p objs1 wfs = Return (w', objs')"
    by (auto split: outcome.splits)
  from folder_step_ok[OF Cons.prems(1) step] rest show ?case
    by (rule Cons.IH)
qed

lemma documents_ok:
  "registry_ok w \<Longrightarrow> updateObjects_documents w p objs wds = Return (w', objs') \<Longrightarrow> registry_ok w'"
proof (induction wds arbitrary: w objs)
  case Nil
  then show ?case by simp
next
  case (Cons x wds)
  from Cons.prems(2) obtain w1 objs1 where
    step: "updateObjects_document w p objs x = Return (w1, objs1)" and
    rest: "updateObjects_documents w1 p objs1 wds = Return (w', objs')"
    by (auto split: outcome.splits)
  from document_step_ok[OF Cons.prems(1) step] rest show ?case
    by (rule Cons.IH)
qed

lemma libraries_ok:
  "registry_ok w \<Longrightarrow> update_libraries w libs wls = Return (w', libs') \<Longrightarrow> registry_ok w'"
proof (induction wls arbitrary: w libs)
  case Nil
  then show ?case by simp
next
  case (Cons x wls)
  from Cons.prems(2) obtain w1 libs1 where
    step: "update_library w libs x = Return (w1, libs1)" and
    rest: "update_libraries w1 libs1 wls = Return (w', libs')"
    by (auto split: outcome.splits)
  from library_step_ok[OF Cons.prems(1) step] rest show ?case
    by (rule Cons.IH)
qed

lemma slots_missing [simp]:
  "Library_of (w\<lparr>missing := m\<rparr>) = Library_of w"
  "Folder_of (w\<lparr>missing := m\<rparr>) = Folder_of w"
  "Document_of (w\<lparr>missing := m\<rparr>) = Document_of w"
  by (simp_all add: fun_eq_iff Library_of_def Folder_of_def Document_of_def)

lemma slots_sent [simp]:
  "Library_of (w\<lparr>sent := s\<rparr>) = Library_of w"
  "Folder_of (w\<lparr>sent := s\<rparr>) = Folder_of w"
  "Document_of (w\<lparr>sent := s\<rparr>) = Document_of w"
  by (simp_all add: fun_eq_iff Library_of_def Folder_of_def Document_of_def)

lemma lookup_lfd_upd: "lookup_lfd (m(k \<mapsto> x)) j = (if j = k then x else lookup_lfd m j)"
  by (simp add: lookup_lfd_def)

lemma registered_missing [simp]: "registered (w\<lparr>missing := m\<rparr>) c = registered w c"
  by (cases c) simp_all

lemma registered_sent [simp]: "registered (w\<lparr>sent := s\<rparr>) c = registered w c"
  by (cases c) simp_all

lemma keys_ok_missing [simp]: "keys_ok (w\<lparr>missing := m\<rparr>) = keys_ok w"
  by (simp add: keys_ok_def)

lemma children_ok_missing [simp]: "children_ok (w\<lparr>missing := m\<rparr>) = children_ok w"
  by (simp add: children_ok_def)

lemma registry_ok_sent [simp]: "registry_ok (w\<lparr>sent := s\<rparr>) = registry_ok w"
  by (simp add: registry_ok_def keys_ok_def missing_ok_def children_ok_def)

lemma missing_Document_ok:
  assumes "registry_ok w" and "registered w (DocumentPtr a)"
  shows "registry_ok (w\<lparr>missing := (missing w)(ID w (DocumentPtr a) \<mapsto>
            (lookup_lfd (missing w) (ID w (DocumentPtr a)))\<lparr>lfd_Document := Some a\<rparr>)\<rparr>)"
  using assms
  by (simp add: registry_ok_def missing_ok_def lookup_lfd_upd)

lemma missing_Folder_ok:
  assumes "registry_ok w"
  shows "registry_ok (w\<lparr>missing := (missing w)(i \<mapsto>
            (lookup_lfd (missing w) i)\<lparr>lfd_Folder := Some a\<rparr>)\<rparr>)"
  using assms
  by (simp add: registry_ok_def missing_ok_def lookup_lfd_upd)

lemma missing_Library_ok:
  assumes "registry_ok w" and "registered w (LibraryPtr a)"
  shows "registry_ok (w\<lparr>missing := (missing w)(ID w (LibraryPtr a) \<mapsto>
            (lookup_lfd (missing w) (ID w (LibraryPtr a)))\<lparr>lfd_Library := Some a\<rparr>)\<rparr>)"
  using assms
  by (simp add: registry_ok_def missing_ok_def lookup_lfd_upd)

lemma updateObjects_missing_ok:
  "registry_ok w \<Longrightarrow> \<forall>c\<in>set cs. registered w c \<Longrightarrow>
   updateObjects_missing w objs cs = Return w' \<Longrightarrow>
     registry_ok w' \<and> w' = w\<lparr>missing := missing w'\<rparr>"
proof (induction cs arbitrary: w)
  case Nil
  then show ?case by simp
next
  case (Cons c cs)
  have reg: "registered w c" and regs: "\<forall>x\<in>set cs. registered w x"
    using Cons.prems(2) by simp_all
  show ?case
  proof (cases "snd (comma_ok (ids objs) (ID w c))")
    case True
    with Cons.prems(3) have "updateObjects_missing w objs cs = Return w'"
      by (simp add: Let_def)
    with Cons.prems(1) regs show ?thesis by (rule Cons.IH)
  next
    case False
    show ?thesis
    proof (cases c)
      case The_Root
      with False Cons.prems(3) show ?thesis by (simp add: Let_def)
    next
      case (LibraryPtr a)
      with False Cons.prems(3) show ?thesis by (simp add: Let_def)
    next
      case (FolderPtr a)
      define w1 where "w1 = w\<lparr>missing := (missing w)(ID w c \<mapsto>
          (lookup_lfd (missing w) (ID w c))\<lparr>lfd_Folder := Some a\<rparr>)\<rparr>"
      have r: "updateObjects_missing w1 objs cs = Return w'"
        using False Cons.prems(3) FolderPtr by (simp add: Let_def w1_def)
      have ok1: "registry_ok w1"
        unfolding w1_def using Cons.prems(1) by (rule missing_Folder_ok)
      have regs1: "\<forall>x\<in>set cs. registered w1 x"
        using regs by (simp add: w1_def)
      from Cons.IH[OF ok1 regs1 r] have "registry_ok w'" "w' = w1\<lparr>missing := missing w'\<rparr>"
        by simp_all
      then show ?thesis
        by (simp add: w1_def)
    next
      case (DocumentPtr a)
      define w1 where "w1 = w\<lparr>missing := (missing w)(ID w c \<mapsto>
          (lookup_lfd (missing w) (ID w c))\<lparr>lfd_Document := Some a\<rparr>)\<rparr>"
      have r: "updateObjects_missing w1 objs cs = Return w'"
        using False Cons.prems(3) DocumentPtr by (simp add: Let_def w1_def)
      have ok1: "registry_ok w1"
        unfolding w1_def DocumentPtr using Cons.prems(1) reg[unfolded DocumentPtr]
        by (rule missing_Document_ok)
      have regs1: "\<forall>x\<in>set cs. registered w1 x"
        using regs by (simp add: w1_def)
      from Cons.IH[OF ok1 regs1 r] have "registry_ok w'" "w' = w1\<lparr>missing := missing w'\<rparr>"
        by simp_all
      then show ?thesis
        by (simp add: w1_def)
    qed
  qed
qed

lemma missing_libraries_ok:
  "registry_ok w \<Longrightarrow> \<forall>c\<in>set cs. registered w c \<Longrightarrow>
   missing_libraries w libs cs = Return w' \<Longrightarrow>
     registry_ok w' \<and> w' = w\<lparr>missing := missing w'\<rparr>"
proof (induction cs arbitrary: w)
  case Nil
  then show ?case by simp
next
  case (Cons c cs)
  have reg: "registered w c" and regs: "\<forall>x\<in>set cs. registered w x"
    using Cons.prems(2) by simp_all
  show ?case
  proof (cases "snd (comma_ok (ids libs) (ID w c))")
    case True
    with Cons.prems(3) have "missing_libraries w libs cs = Return w'"
      by (simp add: Let_def)
    with Cons.prems(1) regs show ?thesis by (rule Cons.IH)
  next
    case False
    show ?thesis
    proof (cases c)
      case The_Root
      with False Cons.prems(3) show ?thesis by (simp add: Let_def)
    next
      case (FolderPtr a)
      with False Cons.prems(3) show ?thesis by (simp add: Let_def)
    next
      case (DocumentPtr a)
      with False Cons.prems(3) show ?thesis by (simp add: Let_def)
    next
      case (LibraryPtr a)
      define w1 where "w1 = w\<lparr>missing := (missing w)(ID w c \<mapsto>
          (lookup_lfd (missing w) (ID w c))\<lparr>lfd_Library := Some a\<rparr>)\<rparr>"
      have r: "missing_libraries w1 libs cs = Return w'"
        using False Cons.prems(3) LibraryPtr by (simp add: Let_def w1_def)
      have ok1: "registry_ok w1"
        unfolding w1_def LibraryPtr using Cons.prems(1) reg[unfolded LibraryPtr]
        by (rule missing_Library_ok)
      have regs1: "\<forall>x\<in>set cs. registered w1 x"
        using regs by (simp add: w1_def)
      from Cons.IH[OF ok1 regs1 r] have "registry_ok w'" "w' = w1\<lparr>missing := missing w'\<rparr>"
        by simp_all
      then show ?thesis
        by (simp add: w1_def)
    qed
  qed
qed

lemma children_ok_get:
  "children_ok w \<longleftrightarrow> (\<forall>op. \<forall>c\<in>set (children (get_objects w op)). registered w c)"
proof
  assume c: "children_ok w"
  show "\<forall>op. \<forall>c\<in>set (children (get_objects w op)). registered w c"
  proof
    fix op
    show "\<forall>c\<in>set (children (get_objects w op)). registered w c"
      using children_okD[OF c] by (cases op) simp_all
  qed
next
  assume a: "\<forall>op. \<forall>c\<in>set (children (get_objects w op)). registered w c"
  show "children_ok w"
    unfolding children_ok_def
  proof (intro conjI allI)
    show "\<forall>c\<in>set (children (root_objects w)). registered w c"
      using a[rule_format, of _ RootObjects] by simp
    show "\<forall>c\<in>set (children (lib_folders (lib_heap w l))). registered w c" for l
      using a[rule_format, of _ "LibraryFolders l"] by simp
    show "\<forall>c\<in>set (children (fld_objects (fld_heap w f))). registered w c" for f
      using a[rule_format, of _ "FolderObjects f"] by simp
  qed
qed

lemma get_set_objects_other:
  "get_objects (set_objects w op objs) op' = (if op' = op then objs else get_objects w op')"
  by (cases op; cases op') auto

lemma set_objects_fields [simp]:
  "lib_web (lib_heap (set_objects w op objs) b) = lib_web (lib_heap w b)"
  "fld_web (fld_heap (set_objects w op objs) b) = fld_web (fld_heap w b)"
  "doc_heap (set_objects w op objs) = doc_heap w"
  "next_addr (set_objects w op objs) = next_addr w"
  "missing (set_objects w op objs) = missing w"
  by (cases op; simp)+

lemma slots_set_objects [simp]:
  "Library_of (set_objects w op objs) = Library_of w"
  "Folder_of (set_objects w op objs) = Folder_of w"
  "Document_of (set_objects w op objs) = Document_of w"
  by (simp_all add: fun_eq_iff Library_of_def Folder_of_def Document_of_def)

lemma registered_set_objects [simp]: "registered (set_objects w op objs) c = registered w c"
  by (cases c) simp_all

lemma set_objects_ok:
  assumes "registry_ok w" and "\<forall>c\<in>set (children objs). registered w c"
  shows "registry_ok (set_objects w op objs)"
proof -
  from assms(1) have k: "keys_ok w" and m: "missing_ok w" and c: "children_ok w"
    by (simp_all add: registry_ok_def)
  have "keys_ok (set_objects w op objs)"
    using k by (simp add: keys_ok_def)
  moreover have "missing_ok (set_objects w op objs)"
    using m by (simp add: missing_ok_def)
  moreover have "children_ok (set_objects w op objs)"
    using c assms(2) by (simp add: children_ok_get get_set_objects_other)
  ultimately show ?thesis
    by (simp add: registry_ok_def)
qed

lemma children_insert: "set (children (insert_child obs e)) \<subseteq> insert (snd (snd e)) (set (children obs))"
  by (cases e) (auto simp: insert_child_def)

lemma children_foldl:
  "set (children (foldl insert_child obs es)) \<subseteq> set (children obs) \<union> (snd \<circ> snd) ` set es"
proof (induction es arbitrary: obs)
  case Nil
  show ?case by simp
next
  case (Cons e es)
  show ?case
    using Cons.IH[of "insert_child obs e"] children_insert[of obs e] by auto
qed

lemma keys_ok_registered:
  assumes "keys_ok w"
  shows "Library_of w i = Some a \<Longrightarrow> registered w (LibraryPtr a)"
    and "Folder_of w i = Some a \<Longrightarrow> registered w (FolderPtr a)"
    and "Document_of w i = Some a \<Longrightarrow> registered w (DocumentPtr a)"
  using keys_okD[OF assms] by simp_all

lemma updateObjects_ok:
  assumes "registry_ok w" and "updateObjects w p op wfs wds = Return (err, w')"
  shows "registry_ok w'"
proof -
  from assms(2) obtain w1 objs1 w2 objs2 w3 where
    1: "updateObjects_folders w p (init (int (length wfs + length wds))) wfs = Return (w1, objs1)" and
    2: "updateObjects_documents w1 p objs1 wds = Return (w2, objs2)" and
    3: "updateObjects_missing w2 objs2 (children (get_objects w2 op)) = Return w3" and
    4: "w' = set_objects w3 op objs2"
    by (auto simp: updateObjects_def split: outcome.splits)
  have ok1: "registry_ok w1"
    using assms(1) 1 by (rule folders_ok)
  have ok2: "registry_ok w2"
    using ok1 2 by (rule documents_ok)
  have "children_ok w2"
    using ok2 by (simp add: registry_ok_def)
  then have regs: "\<forall>c\<in>set (children (get_objects w2 op)). registered w2 c"
    by (simp add: children_ok_get)
  from updateObjects_missing_ok[OF ok2 regs 3]
  have ok3: "registry_ok w3" and w3: "w3 = w2\<lparr>missing := missing w3\<rparr>"
    by simp_all
  have k3: "keys_ok w3"
    using ok3 by (simp add: registry_ok_def)
  have i3: "idCache w3 = idCache w2"
    by (subst w3) simp
  then have le23: "registry_le w2 w3"
    by (rule registry_le_idCache)
  have le12: "registry_le w1 w2"
    using updateObjects_documents_summary[OF 2] by simp
  have le13: "registry_le w1 w3"
    using le12 le23 by (rule registry_le_trans)
  have o1: "objs1 = foldl insert_child (init (int (length wfs + length wds))) (map (folder_entry w3) wfs)"
    using updateObjects_folders_summary[OF 1] le13 by blast
  have o2: "objs2 = foldl insert_child objs1 (map (document_entry w3) wds)"
    using updateObjects_documents_summary[OF 2] le23 by blast
  have sub: "set (children objs2) \<subseteq> (snd \<circ> snd) ` set (map (folder_entry w3) wfs)
               \<union> (snd \<circ> snd) ` set (map (document_entry w3) wds)"
    using children_foldl[of objs1 "map (document_entry w3) wds"]
      children_foldl[of "init (int (length wfs + length wds))" "map (folder_entry w3) wfs"]
    unfolding o2[symmetric] o1[symmetric] by (auto simp: init_def)
  have "registered w3 c" if "c \<in> set (children objs2)" for c
  proof -
    from that sub consider x where "x \<in> set wfs" "c = snd (snd (folder_entry w3 x))"
      | y where "y \<in> set wds" "c = snd (snd (document_entry w3 y))"
      by auto
    then show ?thesis
    proof cases
      case 1
      from updateObjects_folders_known[OF \<open>updateObjects_folders w p _ wfs = _\<close> 1(1)] le13
      obtain a where "Folder_of w3 (FolderID x) = Some a"
        by (auto simp: registry_le_def)
      then show ?thesis
        using keys_ok_registered(2)[OF k3] 1(2) by (simp add: folder_entry_def)
    next
      case 2
      from updateObjects_documents_known[OF \<open>updateObjects_documents w1 p objs1 wds = _\<close> 2(1)] le23
      obtain a where "Document_of w3 (DocumentID y) = Some a"
        by (auto simp: registry_le_def)
      then show ?thesis
        using keys_ok_registered(3)[OF k3] 2(2) by (simp add: document_entry_def)
    qed
  qed
  then show ?thesis
    unfolding 4 using ok3 by (intro set_objects_ok) simp_all
qed

lemma Root_update_ok:
  assumes "registry_ok w" and "Root_update rm w = Return (err, w')"
  shows "registry_ok w'"
proof -
  obtain res w0 where l: "Libraries rm w = (res, w0)"
    by (cases "Libraries rm w")
  have w0: "w0 = w\<lparr>sent := sent w @ [GetLibraries]\<rparr>"
    using Libraries_sent[OF l] .
  have ok0: "registry_ok w0"
    unfolding w0 using assms(1) by simp
  show ?thesis
  proof (cases res)
    case (Inl e)
    with assms(2) l have "w' = w0" by (simp add: Root_update_def)
    with ok0 show ?thesis by simp
  next
    case (Inr wls)
    with assms(2) l obtain w1 libs w2 where
      1: "update_libraries w0 (init (int (length wls))) wls = Return (w1, libs)" and
      2: "missing_libraries w1 libs (children (root_objects w1)) = Return w2" and
      3: "w' = w2\<lparr>root_objects := libs\<rparr>"
      by (auto simp: Root_update_def split: outcome.splits)
    have ok1: "registry_ok w1"
      using ok0 1 by (rule libraries_ok)
    then have "children_ok w1"
      by (simp add: registry_ok_def)
    then have regs: "\<forall>c\<in>set (children (root_objects w1)). registered w1 c"
      by (simp add: children_ok_def)
    from missing_libraries_ok[OF ok1 regs 2]
    have ok2: "registry_ok w2" and w2: "w2 = w1\<lparr>missing := missing w2\<rparr>"
      by simp_all
    have k2: "keys_ok w2"
      using ok2 by (simp add: registry_ok_def)
    have "idCache w2 = idCache w1"
      by (subst w2) simp
    then have le12: "registry_le w1 w2"
      by (rule registry_le_idCache)
    have o: "libs = foldl insert_child (init (int (length wls))) (map (library_entry w2) wls)"
      using update_libraries_summary[OF 1] le12 by blast
    have sub: "set (children libs) \<subseteq> (snd \<circ> snd) ` set (map (library_entry w2) wls)"
      using children_foldl[of "init (int (length wls))" "map (library_entry w2) wls"]
      unfolding o[symmetric] by (auto simp: init_def)
    have "registered w2 c" if "c \<in> set (children libs)" for c
    proof -
      from that sub obtain x where x: "x \<in> set wls" "c = snd (snd (library_entry w2 x))"
        by auto
      from update_libraries_known[OF 1 x(1)] le12
      obtain a where "Library_of w2 (LibraryID x) = Some a"
        by (auto simp: registry_le_def)
      then show ?thesis
        using keys_ok_registered(1)[OF k2] x(2) by (simp add: library_entry_def)
    qed
    then have "registry_ok (set_objects w2 RootObjects libs)"
      using ok2 by (intro set_objects_ok) simp_all
    then show ?thesis
      by (simp add: 3)
  qed
qed

lemma update_ok:
  assumes "registry_ok w" and "update rm w p = Return (err, w')"
  shows "registry_ok w'"
proof (cases p)
  case The_Root
  with assms show ?thesis
    using Root_update_ok by simp
next
  case (DocumentPtr d)
  with assms show ?thesis
    by (simp add: Document_update_def)
next
  case (LibraryPtr l)
  obtain res w0 where f: "web_Library_Folders rm w (lib_web (lib_heap w l)) = (res, w0)"
    by (cases "web_Library_Folders rm w (lib_web (lib_heap w l))")
  have ok0: "registry_ok w0"
    using web_Library_Folders_sent[OF f] assms(1) by simp
  show ?thesis
  proof (cases res)
    case (Inl e)
    with assms(2) f LibraryPtr have "w' = w0"
      by (simp add: Library_update_def)
    with ok0 show ?thesis by simp
  next
    case (Inr wfs)
    with assms(2) f LibraryPtr
    have "updateObjects w0 (LibraryPtr l) (LibraryFolders l) wfs [] = Return (err, w')"
      by (simp add: Library_update_def)
    with ok0 show ?thesis
      by (rule updateObjects_ok)
  qed
next
  case (FolderPtr f)
  have after: "registry_ok w'"
    if "folder_by_id rm w link fid = (res, w0)"
       "(case res of Inl e \<Rightarrow> Return (Some e, w0)
         | Inr wfld \<Rightarrow> updateObjects w0 (FolderPtr f) (FolderObjects f)
             (Folders (Embedded wfld)) (Documents (Embedded wfld))) = Return (err, w')"
    for res w0 link fid
  proof -
    have ok0: "registry_ok w0"
      using folder_by_id_sent[OF that(1)] assms(1) by simp
    show ?thesis
    proof (cases res)
      case (Inl e)
      with that(2) ok0 show ?thesis by simp
    next
      case (Inr wfld)
      with that(2) ok0 show ?thesis
        using updateObjects_ok by simp
    qed
  qed
  show ?thesis
  proof (cases "DotDot (fld_heap w f)")
    case The_Root
    with assms(2) FolderPtr show ?thesis by (simp add: Folder_update_def Let_def)
  next
    case (DocumentPtr d)
    with assms(2) FolderPtr show ?thesis by (simp add: Folder_update_def Let_def)
  next
    case (LibraryPtr l)
    obtain res w0 where l: "folder_by_id rm w (lib_Links_Folders (lib_web (lib_heap w l)))
        (FolderID (fld_web (fld_heap w f))) = (res, w0)"
      by (cases "folder_by_id rm w (lib_Links_Folders (lib_web (lib_heap w l)))
        (FolderID (fld_web (fld_heap w f)))")
    have "(case res of Inl e \<Rightarrow> Return (Some e, w0)
         | Inr wfld \<Rightarrow> updateObjects w0 (FolderPtr f) (FolderObjects f)
             (Folders (Embedded wfld)) (Documents (Embedded wfld))) = Return (err, w')"
      using assms(2) \<open>p = FolderPtr f\<close> LibraryPtr l
      by (simp add: Folder_update_def Let_def web_Library_Folder_def split: sum.splits)
    with l show ?thesis
      by (rule after)
  next
    case (FolderPtr g)
    obtain res w0 where l: "folder_by_id rm w (fl_Folders (fld_Links (fld_web (fld_heap w g))))
        (FolderID (fld_web (fld_heap w f))) = (res, w0)"
      by (cases "folder_by_id rm w (fl_Folders (fld_Links (fld_web (fld_heap w g))))
        (FolderID (fld_web (fld_heap w f)))")
    have "(case res of Inl e \<Rightarrow> Return (Some e, w0)
         | Inr wfld \<Rightarrow> updateObjects w0 (FolderPtr f) (FolderObjects f)
             (Folders (Embedded wfld)) (Documents (Embedded wfld))) = Return (err, w')"
      using assms(2) \<open>p = FolderPtr f\<close> FolderPtr l
      by (simp add: Folder_update_def Let_def web_Folder_Folder_def split: sum.splits)
    with l show ?thesis
      by (rule after)
  qed
qed

lemma refreshes_ok:
  "registry_ok w \<Longrightarrow> refreshes rm w ps = Return w' \<Longrightarrow> registry_ok w'"
proof (induction ps arbitrary: w)
  case Nil
  then show ?case by simp
next
  case (Cons p ps)
  from Cons.prems(2) obtain err w1 where 1: "update rm w p = Return (err, w1)"
    and 2: "refreshes rm w1 ps = Return w'"
    by (auto split: outcome.splits)
  from update_ok[OF Cons.prems(1) 1] 2 show ?case
    by (rule Cons.IH)
qed

lemma folders_frame:
  "updateObjects_folders w p objs wfs = Return (w', objs') \<Longrightarrow>
     doc_heap w' = doc_heap w \<and> lib_heap w' = lib_heap w
     \<and> ((\<forall>x\<in>set wfs. Folder_of w' (FolderID x) \<noteq> Some b) \<longrightarrow> fld_heap w' b = fld_heap w b)"
proof (induction wfs arbitrary: w objs)
  case Nil
  then show ?case by simp
next
  case (Cons y wfs)
  from Cons.prems obtain w1 objs1 where
    step: "updateObjects_folder w p objs y = Return (w1, objs1)" and
    rest: "updateObjects_folders w1 p objs1 wfs = Return (w', objs')"
    by (auto split: outcome.splits)
  from updateObjects_folder_summary(1)[OF step] obtain a where
    a: "Folder_of w1 (FolderID y) = Some a"
    by blast
  note st = folder_step[OF step a]
  note ih = Cons.IH[OF rest]
  have le: "registry_le w1 w'"
    using updateObjects_folders_summary[OF rest] by simp
  have "fld_heap w' b = fld_heap w b" if n: "\<forall>x\<in>set (y # wfs). Folder_of w' (FolderID x) \<noteq> Some b"
  proof -
    have "Folder_of w' (FolderID y) = Some a"
      using a le by (simp add: registry_le_def)
    with n have "b \<noteq> a" by auto
    with st(4) have "fld_heap w1 b = fld_heap w b" by simp
    moreover have "fld_heap w' b = fld_heap w1 b"
      using ih n by simp
    ultimately show ?thesis by simp
  qed
  then show ?case
    using ih st(5,6) by simp
qed

lemma documents_frame:
  "registry_ok w \<Longrightarrow> updateObjects_documents w p objs wds = Return (w', objs') \<Longrightarrow>
     fld_heap w' = fld_heap w \<and> lib_heap w' = lib_heap w
     \<and> ((\<forall>x\<in>set wds. Document_of w' (DocumentID x) \<noteq> Some b) \<longrightarrow> doc_heap w' b = doc_heap w b)"
proof (induction wds arbitrary: w objs)
  case Nil
  then show ?case by simp
next
  case (Cons y wds)
  from Cons.prems(2) obtain w1 objs1 where
    step: "updateObjects_document w p objs y = Return (w1, objs1)" and
    rest: "updateObjects_documents w1 p objs1 wds = Return (w', objs')"
    by (auto split: outcome.splits)
  from updateObjects_document_summary(1)[OF step] obtain a where
    a: "Document_of w1 (DocumentID y) = Some a"
    by blast
  have m: "missing_ok w"
    using Cons.prems(1) by (simp add: registry_ok_def)
  note st = document_step[OF step a m]
  have ok1: "registry_ok w1"
    using Cons.prems(1) step by (rule document_step_ok)
  note ih = Cons.IH[OF ok1 rest]
  have le: "registry_le w1 w'"
    using updateObjects_documents_summary[OF rest] by simp
  have "doc_heap w' b = doc_heap w b" if n: "\<forall>x\<in>set (y # wds). Document_of w' (DocumentID x) \<noteq> Some b"
  proof -
    have "Document_of w' (DocumentID y) = Some a"
      using a le by (simp add: registry_le_def)
    with n have "b \<noteq> a" by auto
    with st(4) have "doc_heap w1 b = doc_heap w b" by simp
    moreover have "doc_heap w' b = doc_heap w1 b"
      using ih n by simp
    ultimately show ?thesis by simp
  qed
  then show ?case
    using ih st(5,6) by simp
qed

lemma libraries_frame:
  "registry_ok w \<Longrightarrow> update_libraries w libs wls = Return (w', libs') \<Longrightarrow>
     (\<forall>x\<in>set wls. Library_of w' (LibraryID x) \<noteq> Some b) \<longrightarrow> lib_heap w' b = lib_heap w b"
proof (induction wls arbitrary: w libs)
  case Nil
  then show ?case by simp
next
  case (Cons y wls)
  from Cons.prems(2) obtain w1 libs1 where
    step: "update_library w libs y = Return (w1, libs1)" and
    rest: "update_libraries w1 libs1 wls = Return (w', libs')"
    by (auto split: outcome.splits)
  from update_library_summary(1)[OF step] obtain a where
    a: "Library_of w1 (LibraryID y) = Some a"
    by blast
  have m: "missing_ok w"
    using Cons.prems(1) by (simp add: registry_ok_def)
  note st = library_step[OF step a m]
  have ok1: "registry_ok w1"
    using Cons.prems(1) step by (rule library_step_ok)
  note ih = Cons.IH[OF ok1 rest]
  have le: "registry_le w1 w'"
    using update_libraries_summary[OF rest] by simp
  have "lib_heap w' b = lib_heap w b" if n: "\<forall>x\<in>set (y # wls). Library_of w' (LibraryID x) \<noteq> Some b"
  proof -
    have "Library_of w' (LibraryID y) = Some a"
      using a le by (simp add: registry_le_def)
    with n have "b \<noteq> a" by auto
    with st(4) have "lib_heap w1 b = lib_heap w b" by simp
    moreover have "lib_heap w' b = lib_heap w1 b"
      using ih n by simp
    ultimately show ?thesis by simp
  qed
  then show ?case
    by simp
qed

lemma folders_metadata:
  "registry_ok w \<Longrightarrow> updateObjects_folders w p objs wfs = Return (w', objs') \<Longrightarrow>
   distinct (map FolderID wfs) \<Longrightarrow> x \<in> set wfs \<Longrightarrow> Folder_of w' (FolderID x) = Some a \<Longrightarrow>
     fld_web (fld_heap w' a) = set_Embedded x (Embedded (fld_web (fld_heap w' a)))"
proof (induction wfs arbitrary: w objs)
  case Nil
  then show ?case by simp
next
  case (Cons y wfs)
  from Cons.prems(2) obtain w1 objs1 where
    step: "updateObjects_folder w p objs y = Return (w1, objs1)" and
    rest: "updateObjects_folders w1 p objs1 wfs = Return (w', objs')"
    by (auto split: outcome.splits)
  have ok1: "registry_ok w1"
    using Cons.prems(1) step by (rule folder_step_ok)
  have d: "distinct (map FolderID wfs)"
    using Cons.prems(3) by simp
  show ?case
  proof (cases "x = y")
    case False
    with Cons.prems(4) have "x \<in> set wfs" by simp
    from Cons.IH[OF ok1 rest d this Cons.prems(5)] show ?thesis .
  next
    case True
    have ok': "registry_ok w'"
      using ok1 rest by (rule folders_ok)
    then have k': "keys_ok w'"
      by (simp add: registry_ok_def)
    have le: "registry_le w1 w'"
      using updateObjects_folders_summary[OF rest] by simp
    from updateObjects_folder_summary(1)[OF step] obtain a1 where
      a1: "Folder_of w1 (FolderID y) = Some a1"
      by blast
    then have "Folder_of w' (FolderID y) = Some a1"
      using le by (simp add: registry_le_def)
    with Cons.prems(5) True have "a1 = a" by simp
    with a1 have a: "Folder_of w1 (FolderID y) = Some a" by simp
    note st = folder_step[OF step a]
    have "Folder_of w' (FolderID z) \<noteq> Some a" if "z \<in> set wfs" for z
    proof
      assume "Folder_of w' (FolderID z) = Some a"
      from keys_okD(2)[OF k' this] keys_okD(2)[OF k' Cons.prems(5)]
      have e: "FolderID z = FolderID x" by simp
      have "FolderID y \<notin> FolderID ` set wfs"
        using Cons.prems(3) by simp
      moreover have "FolderID z \<in> FolderID ` set wfs"
        using that by (rule imageI)
      ultimately show False
        using e True by simp
    qed
    with folders_frame[OF rest, of a] have "fld_heap w' a = fld_heap w1 a"
      by simp
    with st(3) True show ?thesis by simp
  qed
qed

lemma documents_metadata:
  "registry_ok w \<Longrightarrow> updateObjects_documents w p objs wds = Return (w', objs') \<Longrightarrow>
   distinct (map DocumentID wds) \<Longrightarrow> x \<in> set wds \<Longrightarrow> Document_of w' (DocumentID x) = Some a \<Longrightarrow>
     doc_web (doc_heap w' a) = x"
proof (induction wds arbitrary: w objs)
  case Nil
  then show ?case by simp
next
  case (Cons y wds)
  from Cons.prems(2) obtain w1 objs1 where
    step: "updateObjects_document w p objs y = Return (w1, objs1)" and
    rest: "updateObjects_documents w1 p objs1 wds = Return (w', objs')"
    by (auto split: outcome.splits)
  have ok1: "registry_ok w1"
    using Cons.prems(1) step by (rule document_step_ok)
  have m: "missing_ok w"
    using Cons.prems(1) by (simp add: registry_ok_def)
  have d: "distinct (map DocumentID wds)"
    using Cons.prems(3) by simp
  show ?case
  proof (cases "x = y")
    case False
    with Cons.prems(4) have "x \<in> set wds" by simp
    from Cons.IH[OF ok1 rest d this Cons.prems(5)] show ?thesis .
  next
    case True
    have ok': "registry_ok w'"
      using ok1 rest by (rule documents_ok)
    then have k': "keys_ok w'"
      by (simp add: registry_ok_def)
    have le: "registry_le w1 w'"
      using updateObjects_documents_summary[OF rest] by simp
    from updateObjects_document_summary(1)[OF step] obtain a1 where
      a1: "Document_of w1 (DocumentID y) = Some a1"
      by blast
    then have "Document_of w' (DocumentID y) = Some a1"
      using le by (simp add: registry_le_def)
    with Cons.prems(5) True have "a1 = a" by simp
    with a1 have a: "Document_of w1 (DocumentID y) = Some a" by simp
    note st = document_step[OF step a m]
    have "Document_of w' (DocumentID z) \<noteq> Some a" if "z \<in> set wds" for z
    proof
      assume "Document_of w' (DocumentID z) = Some a"
      from keys_okD(3)[OF k' this] keys_okD(3)[OF k' Cons.prems(5)]
      have e: "DocumentID z = DocumentID x" by simp
      have "DocumentID y \<notin> DocumentID ` set wds"
        using Cons.prems(3) by simp
      moreover have "DocumentID z \<in> DocumentID ` set wds"
        using that by (rule imageI)
      ultimately show False
        using e True by simp
    qed
    with documents_frame[OF ok1 rest, of a] have "doc_heap w' a = doc_heap w1 a"
      by simp
    with st(3) True show ?thesis by simp
  qed
qed

lemma libraries_metadata:
  "registry_ok w \<Longrightarrow> update_libraries w libs wls = Return (w', libs') \<Longrightarrow>
   distinct (map LibraryID wls) \<Longrightarrow> x \<in> set wls \<Longrightarrow> Library_of w' (LibraryID x) = Some a \<Longrightarrow>
     lib_web (lib_heap w' a) = x"
proof (induction wls arbitrary: w libs)
  case Nil
  then show ?case by simp
next
  case (Cons y wls)
  from Cons.prems(2) obtain w1 libs1 where
    step: "update_library w libs y = Return (w1, libs1)" and
    rest: "update_libraries w1 libs1 wls = Return (w', libs')"
    by (auto split: outcome.splits)
  have ok1: "registry_ok w1"
    using Cons.prems(1) step by (rule library_step_ok)
  have m: "missing_ok w"
    using Cons.prems(1) by (simp add: registry_ok_def)
  have d: "distinct (map LibraryID wls)"
    using Cons.prems(3) by simp
  show ?case
  proof (cases "x = y")
    case False
    with Cons.prems(4) have "x \<in> set wls" by simp
    from Cons.IH[OF ok1 rest d this Cons.prems(5)] show ?thesis .
  next
    case True
    have ok': "registry_ok w'"
      using ok1 rest by (rule libraries_ok)
    then have k': "keys_ok w'"
      by (simp add: registry_ok_def)
    have le: "registry_le w1 w'"
      using update_libraries_summary[OF rest] by simp
    from update_library_summary(1)[OF step] obtain a1 where
      a1: "Library_of w1 (LibraryID y) = Some a1"
      by blast
    then have "Library_of w' (LibraryID y) = Some a1"
      using le by (simp add: registry_le_def)
    with Cons.prems(5) True have "a1 = a" by simp
    with a1 have a: "Library_of w1 (LibraryID y) = Some a" by simp
    note st = library_step[OF step a m]
    have "Library_of w' (LibraryID z) \<noteq> Some a" if "z \<in> set wls" for z
    proof
      assume "Library_of w' (LibraryID z) = Some a"
      from keys_okD(1)[OF k' this] keys_okD(1)[OF k' Cons.prems(5)]
      have e: "LibraryID z = LibraryID x" by simp
      have "LibraryID y \<notin> LibraryID ` set wls"
        using Cons.prems(3) by simp
      moreover have "LibraryID z \<in> LibraryID ` set wls"
        using that by (rule imageI)
      ultimately show False
        using e True by simp
    qed
    with libraries_frame[OF ok1 rest, of a] have "lib_heap w' a = lib_heap w1 a"
      by simp
    with st(3) True show ?thesis by simp
  qed
qed

text \<open>
  After a merge of a listing with distinct ids, the object the registry holds for a
  folder or a document of the listing carries the fetched descriptor: every field of it
  for a document, every field but \<open>Embedded\<close>, which the merge keeps, for a folder.
\<close>

lemma updateObjects_metadata:
  assumes "registry_ok w" and "updateObjects w p op wfs wds = Return (err, w')"
  shows "distinct (map FolderID wfs) \<Longrightarrow> x \<in> set wfs \<Longrightarrow> Folder_of w' (FolderID x) = Some a \<Longrightarrow>
           fld_web (fld_heap w' a) = set_Embedded x (Embedded (fld_web (fld_heap w' a)))"
    and "distinct (map DocumentID wds) \<Longrightarrow> y \<in> set wds \<Longrightarrow> Document_of w' (DocumentID y) = Some b \<Longrightarrow>
           doc_web (doc_heap w' b) = y"
proof -
  from assms(2) obtain w1 objs1 w2 objs2 w3 where
    1: "updateObjects_folders w p (init (int (length wfs + length wds))) wfs = Return (w1, objs1)" and
    2: "updateObjects_documents w1 p objs1 wds = Return (w2, objs2)" and
    3: "updateObjects_missing w2 objs2 (children (get_objects w2 op)) = Return w3" and
    4: "w' = set_objects w3 op objs2"
    by (auto simp: updateObjects_def split: outcome.splits)
  have ok1: "registry_ok w1"
    using assms(1) 1 by (rule folders_ok)
  have ok2: "registry_ok w2"
    using ok1 2 by (rule documents_ok)
  have "children_ok w2"
    using ok2 by (simp add: registry_ok_def)
  then have regs: "\<forall>c\<in>set (children (get_objects w2 op)). registered w2 c"
    by (simp add: children_ok_get)
  from updateObjects_missing_ok[OF ok2 regs 3]
  have w3: "w3 = w2\<lparr>missing := missing w3\<rparr>"
    by simp
  have h3: "fld_heap w3 = fld_heap w2" "doc_heap w3 = doc_heap w2" "idCache w3 = idCache w2"
    by (subst w3, simp)+
  have s: "Folder_of w' = Folder_of w2" "Document_of w' = Document_of w2"
    by (simp_all add: 4 fun_eq_iff Folder_of_def Document_of_def h3)
  have le12: "registry_le w1 w2"
    using updateObjects_documents_summary[OF 2] by simp
  show "fld_web (fld_heap w' a) = set_Embedded x (Embedded (fld_web (fld_heap w' a)))"
    if d: "distinct (map FolderID wfs)" and x: "x \<in> set wfs"
      and a: "Folder_of w' (FolderID x) = Some a"
  proof -
    from updateObjects_folders_known[OF 1 x] obtain a1 where a1: "Folder_of w1 (FolderID x) = Some a1"
      by blast
    with le12 have "Folder_of w2 (FolderID x) = Some a1"
      by (simp add: registry_le_def)
    with a have "a1 = a" by (simp add: s)
    with a1 have "Folder_of w1 (FolderID x) = Some a" by simp
    from folders_metadata[OF assms(1) 1 d x this]
    have "fld_web (fld_heap w1 a) = set_Embedded x (Embedded (fld_web (fld_heap w1 a)))" .
    moreover have "fld_web (fld_heap w' a) = fld_web (fld_heap w1 a)"
      using documents_frame[OF ok1 2] by (simp add: 4 h3)
    ultimately show ?thesis by simp
  qed
  show "doc_web (doc_heap w' b) = y"
    if d: "distinct (map DocumentID wds)" and y: "y \<in> set wds"
      and b: "Document_of w' (DocumentID y) = Some b"
  proof -
    from b have "Document_of w2 (DocumentID y) = Some b" by (simp add: s)
    from documents_metadata[OF ok1 2 d y this]
    show ?thesis by (simp add: 4 h3)
  qed
qed

lemma Root_update_metadata:
  assumes "registry_ok w" and "Root_update rm w = Return (err, w')"
      and "Libraries rm w = (Inr wls, w0)"
      and "distinct (map LibraryID wls)" and "x \<in> set wls"
      and "Library_of w' (LibraryID x) = Some a"
  shows "lib_web (lib_heap w' a) = x"
proof -
  have w0: "w0 = w\<lparr>sent := sent w @ [GetLibraries]\<rparr>"
    using Libraries_sent[OF assms(3)] .
  have ok0: "registry_ok w0"
    unfolding w0 using assms(1) by simp
  from assms(2,3) obtain w1 libs w2 where
    1: "update_libraries w0 (init (int (length wls))) wls = Return (w1, libs)" and
    2: "missing_libraries w1 libs (children (root_objects w1)) = Return w2" and
    3: "w' = w2\<lparr>root_objects := libs\<rparr>"
    by (auto simp: Root_update_def split: outcome.splits)
  have ok1: "registry_ok w1"
    using ok0 1 by (rule libraries_ok)
  then have "children_ok w1"
    by (simp add: registry_ok_def)
  then have regs: "\<forall>c\<in>set (children (root_objects w1)). registered w1 c"
    by (simp add: children_ok_def)
  from missing_libraries_ok[OF ok1 regs 2]
  have w2: "w2 = w1\<lparr>missing := missing w2\<rparr>"
    by simp
  have h: "lib_heap w2 = lib_heap w1" "idCache w2 = idCache w1"
    by (subst w2, simp)+
  have "Library_of w1 (LibraryID x) = Some a"
    using assms(6) by (simp add: 3 Library_of_def h)
  from libraries_metadata[OF ok0 1 assms(4,5) this]
  show ?thesis
    by (simp add: 3 h)
qed

lemma folder_step_Embedded:
  assumes "updateObjects_folder w p objs wfld = Return (w', objs')"
      and "Folder_of w (FolderID wfld) = Some a"
  shows "Embedded (fld_web (fld_heap w' a)) = Embedded (fld_web (fld_heap w a))"
  using assms
  by (auto simp: updateObjects_folder_def Let_def slot_defs set_Embedded_def
        split: option.splits if_splits prod.splits)

lemma folders_Embedded:
  "registry_ok w \<Longrightarrow> updateObjects_folders w p objs wfs = Return (w', objs') \<Longrightarrow>
   Folder_of w j = Some a \<Longrightarrow>
     Embedded (fld_web (fld_heap w' a)) = Embedded (fld_web (fld_heap w a))"
proof (induction wfs arbitrary: w objs)
  case Nil
  then show ?case by simp
next
  case (Cons y wfs)
  from Cons.prems(2) obtain w1 objs1 where
    step: "updateObjects_folder w p objs y = Return (w1, objs1)" and
    rest: "updateObjects_folders w1 p objs1 wfs = Return (w', objs')"
    by (auto split: outcome.splits)
  have ok1: "registry_ok w1"
    using Cons.prems(1) step by (rule folder_step_ok)
  have k: "keys_ok w"
    using Cons.prems(1) by (simp add: registry_ok_def)
  have le: "registry_le w w1"
    using step by (rule updateObjects_folder_summary(2))
  then have a1: "Folder_of w1 j = Some a"
    using Cons.prems(3) by (simp add: registry_le_def)
  from updateObjects_folder_summary(1)[OF step] obtain b where
    b: "Folder_of w1 (FolderID y) = Some b"
    by blast
  note st = folder_step[OF step b]
  have "Embedded (fld_web (fld_heap w1 a)) = Embedded (fld_web (fld_heap w a))"
  proof (cases "b = a")
    case False
    with st(4) show ?thesis by simp
  next
    case True
    have "a < next_addr w"
      using keys_okD(2)[OF k Cons.prems(3)] by simp
    with st(1) True have "Folder_of w (FolderID y) = Some a"
      by (auto split: option.splits)
    with step show ?thesis
      by (rule folder_step_Embedded)
  qed
  with Cons.IH[OF ok1 rest a1] show ?case
    by simp
qed

lemma updateObjects_Embedded:
  assumes "registry_ok w" and "updateObjects w p op wfs wds = Return (err, w')"
      and "Folder_of w j = Some a"
  shows "Embedded (fld_web (fld_heap w' a)) = Embedded (fld_web (fld_heap w a))"
proof -
  from assms(2) obtain w1 objs1 w2 objs2 w3 where
    1: "updateObjects_folders w p (init (int (length wfs + length wds))) wfs = Return (w1, objs1)" and
    2: "updateObjects_documents w1 p objs1 wds = Return (w2, objs2)" and
    3: "updateObjects_missing w2 objs2 (children (get_objects w2 op)) = Return w3" and
    4: "w' = set_objects w3 op objs2"
    by (auto simp: updateObjects_def split: outcome.splits)
  have ok1: "registry_ok w1"
    using assms(1) 1 by (rule folders_ok)
  have ok2: "registry_ok w2"
    using ok1 2 by (rule documents_ok)
  have "children_ok w2"
    using ok2 by (simp add: registry_ok_def)
  then have regs: "\<forall>c\<in>set (children (get_objects w2 op)). registered w2 c"
    by (simp add: children_ok_get)
  from updateObjects_missing_ok[OF ok2 regs 3]
  have w3: "w3 = w2\<lparr>missing := missing w3\<rparr>"
    by simp
  have h3: "fld_heap w3 = fld_heap w2"
    by (subst w3) simp
  have "fld_web (fld_heap w' a) = fld_web (fld_heap w1 a)"
    using documents_frame[OF ok1 2] by (simp add: 4 h3)
  with folders_Embedded[OF assms(1) 1 assms(3)] show ?thesis
    by simp
qed

subsection \<open>The same object after every refresh\<close>

text \<open>
  Claim C1 as the code has it, for a folder and a document under a library or a folder
  and for a library under the root.  Take two merges with any refreshes of any objects
  in between, whose listings have distinct names and, within a kind, distinct ids, and
  both contain the id of the child (its name may differ, and so may the parent); for a
  document, no folder of either listing has its integer id.  Then the collection each merge
  builds holds one and the same object for the id, found by the id and by the name the
  child has in that listing.  In a tree that refreshes have built from a new root, that
  object carries after each merge the descriptor of the listing merged: every field of
  it for a library and for a document, and for a folder every field but \<open>Embedded\<close>, which
  stays as it was before the merge.
\<close>

theorem refreshed_node_is_the_same_object:
  "(updateObjects w p op wfs wds = Return (err, w1)
      \<and> wfld \<in> set wfs \<and> distinct (map FolderID wfs)
      \<and> distinct (map FolderName wfs @ map DocumentName wds)
      \<and> refreshes rm w1 ps = Return w2
      \<and> updateObjects w2 p' op' wfs' wds' = Return (err', w3)
      \<and> wfld' \<in> set wfs' \<and> FolderID wfld' = FolderID wfld \<and> distinct (map FolderID wfs')
      \<and> distinct (map FolderName wfs' @ map DocumentName wds') \<longrightarrow>
      (\<exists>a. ChildByID (get_objects w1 op) (FolderID wfld) = Return (Some (FolderPtr a))
          \<and> ChildByName (get_objects w1 op) (FolderName wfld) = Return (Some (FolderPtr a))
          \<and> ChildByID (get_objects w3 op') (FolderID wfld) = Return (Some (FolderPtr a))
          \<and> ChildByName (get_objects w3 op') (FolderName wfld') = Return (Some (FolderPtr a))
          \<and> (refreshes rm0 NewRoot ps0 = Return w \<longrightarrow>
                fld_web (fld_heap w1 a) = set_Embedded wfld (Embedded (fld_web (fld_heap w1 a)))
              \<and> fld_web (fld_heap w3 a)
                  = set_Embedded wfld' (Embedded (fld_web (fld_heap w2 a))))))
   \<and> (updateObjects v q oq vfs vds = Return (er, v1)
      \<and> wd \<in> set vds \<and> DocumentID wd \<notin> FolderID ` set vfs \<and> distinct (map DocumentID vds)
      \<and> distinct (map FolderName vfs @ map DocumentName vds)
      \<and> refreshes rm' v1 qs = Return v2
      \<and> updateObjects v2 q' oq' vfs' vds' = Return (er', v3)
      \<and> wd' \<in> set vds' \<and> DocumentID wd' = DocumentID wd
      \<and> DocumentID wd \<notin> FolderID ` set vfs' \<and> distinct (map DocumentID vds')
      \<and> distinct (map FolderName vfs' @ map DocumentName vds') \<longrightarrow>
      (\<exists>a. ChildByID (get_objects v1 oq) (DocumentID wd) = Return (Some (DocumentPtr a))
          \<and> ChildByName (get_objects v1 oq) (DocumentName wd) = Return (Some (DocumentPtr a))
          \<and> ChildByID (get_objects v3 oq') (DocumentID wd) = Return (Some (DocumentPtr a))
          \<and> ChildByName (get_objects v3 oq') (DocumentName wd') = Return (Some (DocumentPtr a))
          \<and> (refreshes rm0' NewRoot qs0 = Return v \<longrightarrow>
                doc_web (doc_heap v1 a) = wd \<and> doc_web (doc_heap v3 a) = wd')))
   \<and> (Libraries rl u = (Inr wls, u0) \<and> Root_update rl u = Return (el, u1)
      \<and> wl \<in> set wls \<and> distinct (map LibraryID wls) \<and> distinct (map LibraryName wls)
      \<and> refreshes rl u1 rs = Return u2
      \<and> Libraries rl u2 = (Inr wls', u0') \<and> Root_update rl u2 = Return (el', u3)
      \<and> wl' \<in> set wls' \<and> LibraryID wl' = LibraryID wl
      \<and> distinct (map LibraryID wls') \<and> distinct (map LibraryName wls') \<longrightarrow>
      (\<exists>a. ChildByID (root_objects u1) (LibraryID wl) = Return (Some (LibraryPtr a))
          \<and> ChildByName (root_objects u1) (LibraryName wl) = Return (Some (LibraryPtr a))
          \<and> ChildByID (root_objects u3) (LibraryID wl) = Return (Some (LibraryPtr a))
          \<and> ChildByName (root_objects u3) (LibraryName wl') = Return (Some (LibraryPtr a))
          \<and> (refreshes rl0 NewRoot rs0 = Return u \<longrightarrow>
                lib_web (lib_heap u1 a) = wl \<and> lib_web (lib_heap u3 a) = wl')))"
proof (intro conjI impI)
  assume a: "updateObjects w p op wfs wds = Return (err, w1)
      \<and> wfld \<in> set wfs \<and> distinct (map FolderID wfs)
      \<and> distinct (map FolderName wfs @ map DocumentName wds)
      \<and> refreshes rm w1 ps = Return w2
      \<and> updateObjects w2 p' op' wfs' wds' = Return (err', w3)
      \<and> wfld' \<in> set wfs' \<and> FolderID wfld' = FolderID wfld \<and> distinct (map FolderID wfs')
      \<and> distinct (map FolderName wfs' @ map DocumentName wds')"
  then have u1: "updateObjects w p op wfs wds = Return (err, w1)" and m1: "wfld \<in> set wfs"
    and i1: "distinct (map FolderID wfs)"
    and n1: "distinct (map FolderName wfs @ map DocumentName wds)"
    and r: "refreshes rm w1 ps = Return w2"
    and u3: "updateObjects w2 p' op' wfs' wds' = Return (err', w3)" and m3: "wfld' \<in> set wfs'"
    and e: "FolderID wfld' = FolderID wfld" and i3: "distinct (map FolderID wfs')"
    and n3: "distinct (map FolderName wfs' @ map DocumentName wds')"
    by simp_all
  from folder_found[OF u1 m1 i1 n1] obtain a where
    a: "Folder_of w1 (FolderID wfld) = Some a"
       "ChildByID (get_objects w1 op) (FolderID wfld) = Return (Some (FolderPtr a))"
       "ChildByName (get_objects w1 op) (FolderName wfld) = Return (Some (FolderPtr a))"
    by blast
  from folder_found[OF u3 m3 i3 n3] obtain b where
    b: "Folder_of w3 (FolderID wfld') = Some b"
       "ChildByID (get_objects w3 op') (FolderID wfld') = Return (Some (FolderPtr b))"
       "ChildByName (get_objects w3 op') (FolderName wfld') = Return (Some (FolderPtr b))"
    by blast
  have a2: "Folder_of w2 (FolderID wfld) = Some a"
    using refreshes_le[OF r] a(1) by (simp add: registry_le_def)
  have "registry_le w1 w3"
    using refreshes_le[OF r] updateObjects_summary(2)[OF u3] by (rule registry_le_trans)
  then have a3: "Folder_of w3 (FolderID wfld) = Some a"
    using a(1) by (simp add: registry_le_def)
  then have ba: "b = a"
    using b(1) e by simp
  have meta: "fld_web (fld_heap w1 a) = set_Embedded wfld (Embedded (fld_web (fld_heap w1 a)))
              \<and> fld_web (fld_heap w3 a) = set_Embedded wfld' (Embedded (fld_web (fld_heap w2 a)))"
    if reach: "refreshes rm0 NewRoot ps0 = Return w"
  proof -
    have ok: "registry_ok w"
      using registry_ok_NewRoot reach by (rule refreshes_ok)
    have ok1: "registry_ok w1"
      using ok u1 by (rule updateObjects_ok)
    have ok2: "registry_ok w2"
      using ok1 r by (rule refreshes_ok)
    have "fld_web (fld_heap w3 a) = set_Embedded wfld' (Embedded (fld_web (fld_heap w3 a)))"
      using updateObjects_metadata(1)[OF ok2 u3 i3 m3, of a] a3 e by simp
    moreover have "Embedded (fld_web (fld_heap w3 a)) = Embedded (fld_web (fld_heap w2 a))"
      using ok2 u3 a2 by (rule updateObjects_Embedded)
    ultimately show ?thesis
      using updateObjects_metadata(1)[OF ok u1 i1 m1 a(1)] by simp
  qed
  show "\<exists>a. ChildByID (get_objects w1 op) (FolderID wfld) = Return (Some (FolderPtr a))
          \<and> ChildByName (get_objects w1 op) (FolderName wfld) = Return (Some (FolderPtr a))
          \<and> ChildByID (get_objects w3 op') (FolderID wfld) = Return (Some (FolderPtr a))
          \<and> ChildByName (get_objects w3 op') (FolderName wfld') = Return (Some (FolderPtr a))
          \<and> (refreshes rm0 NewRoot ps0 = Return w \<longrightarrow>
                fld_web (fld_heap w1 a) = set_Embedded wfld (Embedded (fld_web (fld_heap w1 a)))
              \<and> fld_web (fld_heap w3 a)
                  = set_Embedded wfld' (Embedded (fld_web (fld_heap w2 a))))"
    using a(2,3) b(2,3) e meta unfolding ba by (intro exI[of _ a]) simp
next
  assume a: "updateObjects v q oq vfs vds = Return (er, v1)
      \<and> wd \<in> set vds \<and> DocumentID wd \<notin> FolderID ` set vfs \<and> distinct (map DocumentID vds)
      \<and> distinct (map FolderName vfs @ map DocumentName vds)
      \<and> refreshes rm' v1 qs = Return v2
      \<and> updateObjects v2 q' oq' vfs' vds' = Return (er', v3)
      \<and> wd' \<in> set vds' \<and> DocumentID wd' = DocumentID wd
      \<and> DocumentID wd \<notin> FolderID ` set vfs' \<and> distinct (map DocumentID vds')
      \<and> distinct (map FolderName vfs' @ map DocumentName vds')"
  then have u1: "updateObjects v q oq vfs vds = Return (er, v1)" and m1: "wd \<in> set vds"
    and c1: "DocumentID wd \<notin> FolderID ` set vfs"
    and i1: "distinct (map DocumentID vds)"
    and n1: "distinct (map FolderName vfs @ map DocumentName vds)"
    and r: "refreshes rm' v1 qs = Return v2"
    and u3: "updateObjects v2 q' oq' vfs' vds' = Return (er', v3)" and m3: "wd' \<in> set vds'"
    and e: "DocumentID wd' = DocumentID wd"
    and c3: "DocumentID wd \<notin> FolderID ` set vfs'"
    and i3: "distinct (map DocumentID vds')"
    and n3: "distinct (map FolderName vfs' @ map DocumentName vds')"
    by simp_all
  from document_found[OF u1 m1 c1 i1 n1] obtain a where
    a: "Document_of v1 (DocumentID wd) = Some a"
       "ChildByID (get_objects v1 oq) (DocumentID wd) = Return (Some (DocumentPtr a))"
       "ChildByName (get_objects v1 oq) (DocumentName wd) = Return (Some (DocumentPtr a))"
    by blast
  have c3': "DocumentID wd' \<notin> FolderID ` set vfs'"
    using c3 e by simp
  from document_found[OF u3 m3 c3' i3 n3] obtain b where
    b: "Document_of v3 (DocumentID wd') = Some b"
       "ChildByID (get_objects v3 oq') (DocumentID wd') = Return (Some (DocumentPtr b))"
       "ChildByName (get_objects v3 oq') (DocumentName wd') = Return (Some (DocumentPtr b))"
    by blast
  have "registry_le v1 v3"
    using refreshes_le[OF r] updateObjects_summary(2)[OF u3] by (rule registry_le_trans)
  then have a3: "Document_of v3 (DocumentID wd) = Some a"
    using a(1) by (simp add: registry_le_def)
  then have ba: "b = a"
    using b(1) e by simp
  have meta: "doc_web (doc_heap v1 a) = wd \<and> doc_web (doc_heap v3 a) = wd'"
    if reach: "refreshes rm0' NewRoot qs0 = Return v"
  proof -
    have ok: "registry_ok v"
      using registry_ok_NewRoot reach by (rule refreshes_ok)
    have ok1: "registry_ok v1"
      using ok u1 by (rule updateObjects_ok)
    have ok2: "registry_ok v2"
      using ok1 r by (rule refreshes_ok)
    have "doc_web (doc_heap v3 a) = wd'"
      using updateObjects_metadata(2)[OF ok2 u3 i3 m3, of a] a3 e by simp
    then show ?thesis
      using updateObjects_metadata(2)[OF ok u1 i1 m1 a(1)] by simp
  qed
  show "\<exists>a. ChildByID (get_objects v1 oq) (DocumentID wd) = Return (Some (DocumentPtr a))
          \<and> ChildByName (get_objects v1 oq) (DocumentName wd) = Return (Some (DocumentPtr a))
          \<and> ChildByID (get_objects v3 oq') (DocumentID wd) = Return (Some (DocumentPtr a))
          \<and> ChildByName (get_objects v3 oq') (DocumentName wd') = Return (Some (DocumentPtr a))
          \<and> (refreshes rm0' NewRoot qs0 = Return v \<longrightarrow>
                doc_web (doc_heap v1 a) = wd \<and> doc_web (doc_heap v3 a) = wd')"
    using a(2,3) b(2,3) e meta unfolding ba by (intro exI[of _ a]) simp
next
  assume a: "Libraries rl u = (Inr wls, u0) \<and> Root_update rl u = Return (el, u1)
      \<and> wl \<in> set wls \<and> distinct (map LibraryID wls) \<and> distinct (map LibraryName wls)
      \<and> refreshes rl u1 rs = Return u2
      \<and> Libraries rl u2 = (Inr wls', u0') \<and> Root_update rl u2 = Return (el', u3)
      \<and> wl' \<in> set wls' \<and> LibraryID wl' = LibraryID wl
      \<and> distinct (map LibraryID wls') \<and> distinct (map LibraryName wls')"
  then have l1: "Libraries rl u = (Inr wls, u0)" and u1: "Root_update rl u = Return (el, u1)"
    and m1: "wl \<in> set wls" and i1: "distinct (map LibraryID wls)"
    and n1: "distinct (map LibraryName wls)"
    and r: "refreshes rl u1 rs = Return u2"
    and l3: "Libraries rl u2 = (Inr wls', u0')" and u3: "Root_update rl u2 = Return (el', u3)"
    and m3: "wl' \<in> set wls'" and e: "LibraryID wl' = LibraryID wl"
    and i3: "distinct (map LibraryID wls')" and n3: "distinct (map LibraryName wls')"
    by simp_all
  from library_found[OF u1 l1 m1 i1 n1] obtain a where
    a: "Library_of u1 (LibraryID wl) = Some a"
       "ChildByID (root_objects u1) (LibraryID wl) = Return (Some (LibraryPtr a))"
       "ChildByName (root_objects u1) (LibraryName wl) = Return (Some (LibraryPtr a))"
    by blast
  from library_found[OF u3 l3 m3 i3 n3] obtain b where
    b: "Library_of u3 (LibraryID wl') = Some b"
       "ChildByID (root_objects u3) (LibraryID wl') = Return (Some (LibraryPtr b))"
       "ChildByName (root_objects u3) (LibraryName wl') = Return (Some (LibraryPtr b))"
    by blast
  have "registry_le u1 u3"
    using refreshes_le[OF r] Root_update_le[OF u3] by (rule registry_le_trans)
  then have a3: "Library_of u3 (LibraryID wl) = Some a"
    using a(1) by (simp add: registry_le_def)
  then have ba: "b = a"
    using b(1) e by simp
  have meta: "lib_web (lib_heap u1 a) = wl \<and> lib_web (lib_heap u3 a) = wl'"
    if reach: "refreshes rl0 NewRoot rs0 = Return u"
  proof -
    have ok: "registry_ok u"
      using registry_ok_NewRoot reach by (rule refreshes_ok)
    have ok1: "registry_ok u1"
      using ok u1 by (rule Root_update_ok)
    have ok2: "registry_ok u2"
      using ok1 r by (rule refreshes_ok)
    have "lib_web (lib_heap u3 a) = wl'"
      using Root_update_metadata[OF ok2 u3 l3 i3 m3, of a] a3 e by simp
    then show ?thesis
      using Root_update_metadata[OF ok u1 l1 i1 m1 a(1)] by simp
  qed
  show "\<exists>a. ChildByID (root_objects u1) (LibraryID wl) = Return (Some (LibraryPtr a))
          \<and> ChildByName (root_objects u1) (LibraryName wl) = Return (Some (LibraryPtr a))
          \<and> ChildByID (root_objects u3) (LibraryID wl) = Return (Some (LibraryPtr a))
          \<and> ChildByName (root_objects u3) (LibraryName wl') = Return (Some (LibraryPtr a))
          \<and> (refreshes rl0 NewRoot rs0 = Return u \<longrightarrow>
                lib_web (lib_heap u1 a) = wl \<and> lib_web (lib_heap u3 a) = wl')"
    using a(2,3) b(2,3) e meta unfolding ba by (intro exI[of _ a]) simp
qed

text \<open>
  Claim C1 at a library that is renamed and made private between two refreshes of the
  root, and at a folder and a document that come back with another name, other links
  and another date in the second of two merges into their folder.
\<close>

theorem refreshed_node_is_the_same_object_witness:
  "(let l2 = (library_named 1 ''L2'')\<lparr>IsPrivate := True, lib_Links_Self := ''/libraries/1''\<rparr>;
        f2 = web_Folder 11 ''s2'' 1
               \<lparr>fl_Self = ''/folders/11'', fl_Folders = ''/folders/11/folders'',
                fl_Documents = ''/folders/11/documents'', fl_Shares = []\<rparr>
               (FolderEmbedded [] []);
        d2 = (document_named 100 ''d2'')\<lparr>DateModified := 7\<rparr>;
        rl = scripted
          [LibrariesJSON [library_named 1 ''L''],
           FoldersJSON [folder_named 10 ''A''],
           LibrariesJSON [l2],
           LibrariesJSON [l2]]
    in \<exists>u0 u1 u2 u0' u3 w1 w2 w3.
         Libraries rl NewRoot = (Inr [library_named 1 ''L''], u0)
       \<and> Root_update rl NewRoot = Return (None, u1)
       \<and> refreshes rl u1 [LibraryPtr 0] = Return u2
       \<and> Libraries rl u2 = (Inr [l2], u0')
       \<and> Root_update rl u2 = Return (None, u3)
       \<and> refreshes rl NewRoot [] = Return NewRoot
       \<and> ChildByID (root_objects u1) 1 = Return (Some (LibraryPtr 0))
       \<and> ChildByName (root_objects u1) ''L'' = Return (Some (LibraryPtr 0))
       \<and> ChildByID (root_objects u3) 1 = Return (Some (LibraryPtr 0))
       \<and> ChildByName (root_objects u3) ''L2'' = Return (Some (LibraryPtr 0))
       \<and> lib_web (lib_heap u1 0) = library_named 1 ''L''
       \<and> lib_web (lib_heap u3 0) = l2
       \<and> refreshes rl NewRoot [The_Root, LibraryPtr 0, The_Root] = Return u3
       \<and> updateObjects u3 (FolderPtr 1) (FolderObjects 1)
            [folder_named 11 ''s''] [document_named 100 ''d''] = Return (None, w1)
       \<and> refreshes rl w1 [The_Root] = Return w2
       \<and> updateObjects w2 (FolderPtr 1) (FolderObjects 1) [f2] [d2] = Return (None, w3)
       \<and> (\<exists>a. ChildByID (get_objects w1 (FolderObjects 1)) 11 = Return (Some (FolderPtr a))
              \<and> ChildByName (get_objects w1 (FolderObjects 1)) ''s'' = Return (Some (FolderPtr a))
              \<and> ChildByID (get_objects w3 (FolderObjects 1)) 11 = Return (Some (FolderPtr a))
              \<and> ChildByName (get_objects w3 (FolderObjects 1)) ''s2'' = Return (Some (FolderPtr a))
              \<and> fld_web (fld_heap w1 a)
                   = set_Embedded (folder_named 11 ''s'') (Embedded (fld_web (fld_heap w1 a)))
              \<and> fld_web (fld_heap w3 a) = set_Embedded f2 (Embedded (fld_web (fld_heap w2 a))))
       \<and> (\<exists>a. ChildByID (get_objects w1 (FolderObjects 1)) 100 = Return (Some (DocumentPtr a))
              \<and> ChildByName (get_objects w1 (FolderObjects 1)) ''d'' = Return (Some (DocumentPtr a))
              \<and> ChildByID (get_objects w3 (FolderObjects 1)) 100 = Return (Some (DocumentPtr a))
              \<and> ChildByName (get_objects w3 (FolderObjects 1)) ''d2'' = Return (Some (DocumentPtr a))
              \<and> doc_web (doc_heap w1 a) = document_named 100 ''d''
              \<and> doc_web (doc_heap w3 a) = d2))"
proof -
  define l2 where "l2 = (library_named 1 ''L2'')\<lparr>IsPrivate := True, lib_Links_Self := ''/libraries/1''\<rparr>"
  define f2 where "f2 = web_Folder 11 ''s2'' 1
               \<lparr>fl_Self = ''/folders/11'', fl_Folders = ''/folders/11/folders'',
                fl_Documents = ''/folders/11/documents'', fl_Shares = []\<rparr>
               (FolderEmbedded [] [])"
  define d2 where "d2 = (document_named 100 ''d2'')\<lparr>DateModified := 7\<rparr>"
  define rl where "rl = scripted
       [LibrariesJSON [library_named 1 ''L''],
        FoldersJSON [folder_named 10 ''A''],
        LibrariesJSON [l2],
        LibrariesJSON [l2]]"
  define u0 where "u0 = snd (Libraries rl NewRoot)"
  define u1 where "u1 = (case Root_update rl NewRoot of
     Return (e, x) \<Rightarrow> x | Panicked e \<Rightarrow> NewRoot)"
  define u2 where "u2 = (case refreshes rl u1 [LibraryPtr 0] of
     Return x \<Rightarrow> x | Panicked e \<Rightarrow> NewRoot)"
  define u0' where "u0' = snd (Libraries rl u2)"
  define u3 where "u3 = (case Root_update rl u2 of
     Return (e, x) \<Rightarrow> x | Panicked e \<Rightarrow> NewRoot)"
  define w1 where "w1 = (case updateObjects u3 (FolderPtr 1) (FolderObjects 1)
            [folder_named 11 ''s''] [document_named 100 ''d''] of
     Return (e, x) \<Rightarrow> x | Panicked e \<Rightarrow> NewRoot)"
  define w2 where "w2 = (case refreshes rl w1 [The_Root] of
     Return x \<Rightarrow> x | Panicked e \<Rightarrow> NewRoot)"
  define w3 where "w3 = (case updateObjects w2 (FolderPtr 1) (FolderObjects 1) [f2] [d2] of
     Return (e, x) \<Rightarrow> x | Panicked e \<Rightarrow> NewRoot)"
  note ds = rl_def l2_def f2_def d2_def
  have l1: "Libraries rl NewRoot = (Inr [library_named 1 ''L''], u0)"
    unfolding u0_def ds by (simp add: eval_defs)
  have h1: "Root_update rl NewRoot = Return (None, u1)"
    unfolding u1_def ds by (simp add: eval_defs)
  have h2: "refreshes rl u1 [LibraryPtr 0] = Return u2"
    unfolding u2_def u1_def ds by (simp add: eval_defs)
  have l3: "Libraries rl u2 = (Inr [l2], u0')"
    unfolding u0'_def u2_def u1_def ds by (simp add: eval_defs)
  have h3: "Root_update rl u2 = Return (None, u3)"
    unfolding u3_def u2_def u1_def ds by (simp add: eval_defs)
  have r0: "refreshes rl NewRoot [] = Return NewRoot"
    by simp
  have r3: "refreshes rl NewRoot [The_Root, LibraryPtr 0, The_Root] = Return u3"
    using h1 h2 h3 by (auto split: outcome.splits)
  have h4: "updateObjects u3 (FolderPtr 1) (FolderObjects 1)
            [folder_named 11 ''s''] [document_named 100 ''d''] = Return (None, w1)"
    unfolding w1_def u3_def u2_def u1_def ds by (simp add: eval_defs)
  have h5: "refreshes rl w1 [The_Root] = Return w2"
    unfolding w2_def w1_def u3_def u2_def u1_def ds by (simp add: eval_defs)
  have h6: "updateObjects w2 (FolderPtr 1) (FolderObjects 1) [f2] [d2] = Return (None, w3)"
    unfolding w3_def w2_def w1_def u3_def u2_def u1_def ds by (simp add: eval_defs)
  have n: "FolderID (folder_named i s) = i" "FolderName (folder_named i s) = s"
     "DocumentID (document_named i s) = i" "DocumentName (document_named i s) = s"
     "LibraryID (library_named i s) = i" "LibraryName (library_named i s) = s" for i s
    by (simp_all add: folder_named_def document_named_def library_named_def
          zero_web_Document_def zero_web_Library_def)
  have n2: "FolderID f2 = 11" "FolderName f2 = ''s2''" "DocumentID d2 = 100"
     "DocumentName d2 = ''d2''" "LibraryID l2 = 1" "LibraryName l2 = ''L2''"
    by (simp_all add: f2_def d2_def l2_def n)
  note t = refreshed_node_is_the_same_object
         [of u3 "FolderPtr 1" "FolderObjects 1" "[folder_named 11 ''s'']"
             "[document_named 100 ''d'']" None w1 "folder_named 11 ''s''"
             rl "[The_Root]" w2 "FolderPtr 1" "FolderObjects 1" "[f2]"
             "[d2]" None w3 f2 rl "[The_Root, LibraryPtr 0, The_Root]"
             u3 "FolderPtr 1" "FolderObjects 1" "[folder_named 11 ''s'']"
             "[document_named 100 ''d'']" None w1 "document_named 100 ''d''"
             rl "[The_Root]" w2 "FolderPtr 1" "FolderObjects 1" "[f2]"
             "[d2]" None w3 d2 rl "[The_Root, LibraryPtr 0, The_Root]"
             rl NewRoot "[library_named 1 ''L'']" u0 None u1 "library_named 1 ''L''"
             "[LibraryPtr 0]" u2 "[l2]" u0' None u3 l2 rl "[]"]
  have cf: "\<exists>a. ChildByID (get_objects w1 (FolderObjects 1)) 11 = Return (Some (FolderPtr a))
              \<and> ChildByName (get_objects w1 (FolderObjects 1)) ''s'' = Return (Some (FolderPtr a))
              \<and> ChildByID (get_objects w3 (FolderObjects 1)) 11 = Return (Some (FolderPtr a))
              \<and> ChildByName (get_objects w3 (FolderObjects 1)) ''s2'' = Return (Some (FolderPtr a))
              \<and> fld_web (fld_heap w1 a)
                   = set_Embedded (folder_named 11 ''s'') (Embedded (fld_web (fld_heap w1 a)))
              \<and> fld_web (fld_heap w3 a) = set_Embedded f2 (Embedded (fld_web (fld_heap w2 a)))"
    using t h4 h5 h6 r3 by (simp add: n n2)
  have cd: "\<exists>a. ChildByID (get_objects w1 (FolderObjects 1)) 100 = Return (Some (DocumentPtr a))
              \<and> ChildByName (get_objects w1 (FolderObjects 1)) ''d'' = Return (Some (DocumentPtr a))
              \<and> ChildByID (get_objects w3 (FolderObjects 1)) 100 = Return (Some (DocumentPtr a))
              \<and> ChildByName (get_objects w3 (FolderObjects 1)) ''d2'' = Return (Some (DocumentPtr a))
              \<and> doc_web (doc_heap w1 a) = document_named 100 ''d''
              \<and> doc_web (doc_heap w3 a) = d2"
    using t h4 h5 h6 r3 by (simp add: n n2)
  have cl: "\<exists>a. ChildByID (root_objects u1) 1 = Return (Some (LibraryPtr a))
          \<and> ChildByName (root_objects u1) ''L'' = Return (Some (LibraryPtr a))
          \<and> ChildByID (root_objects u3) 1 = Return (Some (LibraryPtr a))
          \<and> ChildByName (root_objects u3) ''L2'' = Return (Some (LibraryPtr a))
          \<and> lib_web (lib_heap u1 a) = library_named 1 ''L''
          \<and> lib_web (lib_heap u3 a) = l2"
    using t l1 h1 h2 l3 h3 r0 by (simp add: n n2)
  have c0: "ChildByID (root_objects u1) 1 = Return (Some (LibraryPtr 0))"
    unfolding u1_def ds by (simp add: eval_defs)
  from cl c0 have cl': "ChildByID (root_objects u1) 1 = Return (Some (LibraryPtr 0))
          \<and> ChildByName (root_objects u1) ''L'' = Return (Some (LibraryPtr 0))
          \<and> ChildByID (root_objects u3) 1 = Return (Some (LibraryPtr 0))
          \<and> ChildByName (root_objects u3) ''L2'' = Return (Some (LibraryPtr 0))
          \<and> lib_web (lib_heap u1 0) = library_named 1 ''L''
          \<and> lib_web (lib_heap u3 0) = l2"
    by auto
  show ?thesis
    unfolding Let_def l2_def [symmetric] f2_def [symmetric] d2_def [symmetric] rl_def [symmetric]
    using l1 h1 h2 l3 h3 r0 r3 h4 h5 h6 cf cd cl' by blast
qed

text \<open>
  Claim C1 as it is written fails when a folder with the integer id of a document
  appears next to it: the document with the id 5 is listed by both refreshes of its
  folder, and after the second one the id finds a new folder and the name of the document
  finds nothing.
\<close>

theorem folder_with_the_id_of_a_document_takes_its_place:
  "(let rm = scripted
       [LibrariesJSON [library_named 1 ''L''],
        FoldersJSON [folder_named 10 ''A''],
        FolderJSON (folder_holding 10 ''A'' [document_named 5 ''b''] []),
        FolderJSON (folder_holding 10 ''A'' [document_named 5 ''b''] [folder_named 5 ''a''])]
    in case refreshes rm NewRoot [The_Root, LibraryPtr 0, FolderPtr 1] of
         Panicked e \<Rightarrow> False
       | Return w1 \<Rightarrow>
           ChildByID (fld_objects (fld_heap w1 1)) 5 = Return (Some (DocumentPtr 2))
           \<and> ChildByName (fld_objects (fld_heap w1 1)) ''b'' = Return (Some (DocumentPtr 2))
           \<and> (case update rm w1 (FolderPtr 1) of
                Return (None, w2) \<Rightarrow>
                  ChildByID (fld_objects (fld_heap w2 1)) 5 = Return (Some (FolderPtr 3))
                  \<and> ChildByName (fld_objects (fld_heap w2 1)) ''b'' = Return None
                  \<and> children (fld_objects (fld_heap w2 1)) = [FolderPtr 3]
              | _ \<Rightarrow> False))"
  by (simp add: eval_defs)

subsection \<open>A child that comes back under another parent\<close>

text \<open>
  Claim C2 at a document \<open>d\<close> with the id 100: folder \<open>A\<close> lists it, then no longer
  lists it, then folder \<open>B\<close> lists it.  After the second refresh of \<open>A\<close> the document is
  in \<open>missing\<close>.  After the refresh of \<open>B\<close> the same object is a child of \<open>B\<close>, and it
  is still in \<open>missing\<close>: the registry \<open>idCache\<close> has never let go of it, so \<open>missing\<close> is
  not looked at and its slot is not cleared.
\<close>

theorem reattached_document_stays_in_missing:
  "(let rm = scripted
       [LibrariesJSON [library_named 1 ''L''],
        FoldersJSON [folder_named 10 ''A'', folder_named 11 ''B''],
        FolderJSON (folder_holding 10 ''A'' [document_named 100 ''d''] []),
        FolderJSON (folder_holding 10 ''A'' [] []),
        FolderJSON (folder_holding 11 ''B'' [document_named 100 ''d''] [])]
    in case refreshes rm NewRoot [The_Root, LibraryPtr 0, FolderPtr 1] of
         Panicked e \<Rightarrow> False
       | Return w1 \<Rightarrow>
           ChildByName (fld_objects (fld_heap w1 1)) ''d'' = Return (Some (DocumentPtr 3))
           \<and> missing w1 100 = None
           \<and> (case update rm w1 (FolderPtr 1) of
                Return (None, w2) \<Rightarrow>
                  ChildByName (fld_objects (fld_heap w2 1)) ''d'' = Return None
                  \<and> lfd_Document (lookup_lfd (missing w2) 100) = Some 3
                  \<and> (case update rm w2 (FolderPtr 2) of
                       Return (None, w3) \<Rightarrow>
                         ChildByName (fld_objects (fld_heap w3 2)) ''d'' = Return (Some (DocumentPtr 3))
                         \<and> lfd_Document (lookup_lfd (missing w3) 100) = Some 3
                     | _ \<Rightarrow> False)
              | _ \<Rightarrow> False))"
  by (simp add: eval_defs)

subsection \<open>Resolving a path\<close>

lemma update_requests:
  "update rm w p = Return (err, w') \<Longrightarrow> sent w' = sent w \<or> (\<exists>req. sent w' = sent w @ [req])"
proof (cases p)
  case The_Root
  assume a: "update rm w p = Return (err, w')"
  obtain res w0 where l: "Libraries rm w = (res, w0)"
    by (cases "Libraries rm w")
  have s0: "sent w0 = sent w @ [GetLibraries]"
    using Libraries_sent[OF l] by simp
  show ?thesis
  proof (cases res)
    case (Inl e)
    with a l The_Root have "w' = w0"
      by (simp add: Root_update_def)
    with s0 show ?thesis by simp
  next
    case (Inr wls)
    with a l The_Root obtain w1 libs w2 where
      1: "update_libraries w0 (init (int (length wls))) wls = Return (w1, libs)" and
      2: "missing_libraries w1 libs (children (root_objects w1)) = Return w2" and
      3: "w' = w2\<lparr>root_objects := libs\<rparr>"
      by (auto simp: Root_update_def split: outcome.splits)
    have "sent w' = sent w0"
      using update_libraries_summary[OF 1] missing_libraries_summary[OF 2] by (simp add: 3)
    with s0 show ?thesis by simp
  qed
next
  case (LibraryPtr l)
  assume a: "update rm w p = Return (err, w')"
  obtain res w0 where f: "web_Library_Folders rm w (lib_web (lib_heap w l)) = (res, w0)"
    by (cases "web_Library_Folders rm w (lib_web (lib_heap w l))")
  have s0: "\<exists>req. sent w0 = sent w @ [req]"
    using web_Library_Folders_sent[OF f] by simp
  show ?thesis
  proof (cases res)
    case (Inl e)
    with a f LibraryPtr have "w' = w0"
      by (simp add: Library_update_def)
    with s0 show ?thesis by simp
  next
    case (Inr wfs)
    with a f LibraryPtr have "updateObjects w0 (LibraryPtr l) (LibraryFolders l) wfs [] = Return (err, w')"
      by (simp add: Library_update_def)
    then have "sent w' = sent w0"
      by (rule updateObjects_summary(3))
    with s0 show ?thesis by simp
  qed
next
  case (DocumentPtr d)
  assume "update rm w p = Return (err, w')"
  with DocumentPtr show ?thesis
    by (simp add: Document_update_def)
next
  case (FolderPtr f)
  assume a: "update rm w p = Return (err, w')"
  have after: "sent w' = sent w0"
    if "(case res of Inl e \<Rightarrow> Return (Some e, w0)
         | Inr wfld \<Rightarrow> updateObjects w0 (FolderPtr f) (FolderObjects f)
             (Folders (Embedded wfld)) (Documents (Embedded wfld))) = Return (err, w')"
    for res w0
    using that updateObjects_summary(3) by (cases res) auto
  show ?thesis
  proof (cases "DotDot (fld_heap w f)")
    case The_Root
    with a FolderPtr show ?thesis by (simp add: Folder_update_def Let_def)
  next
    case (DocumentPtr d)
    with a FolderPtr show ?thesis by (simp add: Folder_update_def Let_def)
  next
    case (LibraryPtr l)
    obtain res w0 where l: "folder_by_id rm w (lib_Links_Folders (lib_web (lib_heap w l)))
        (FolderID (fld_web (fld_heap w f))) = (res, w0)"
      by (cases "folder_by_id rm w (lib_Links_Folders (lib_web (lib_heap w l)))
        (FolderID (fld_web (fld_heap w f)))")
    have "(case res of Inl e \<Rightarrow> Return (Some e, w0)
         | Inr wfld \<Rightarrow> updateObjects w0 (FolderPtr f) (FolderObjects f)
             (Folders (Embedded wfld)) (Documents (Embedded wfld))) = Return (err, w')"
      using a FolderPtr LibraryPtr l
      by (simp add: Folder_update_def Let_def web_Library_Folder_def split: sum.splits)
    then have "sent w' = sent w0"
      by (rule after)
    then show ?thesis
      using folder_by_id_sent[OF l] by simp
  next
    case (FolderPtr g)
    obtain res w0 where l: "folder_by_id rm w (fl_Folders (fld_Links (fld_web (fld_heap w g))))
        (FolderID (fld_web (fld_heap w f))) = (res, w0)"
      by (cases "folder_by_id rm w (fl_Folders (fld_Links (fld_web (fld_heap w g))))
        (FolderID (fld_web (fld_heap w f)))")
    have "(case res of Inl e \<Rightarrow> Return (Some e, w0)
         | Inr wfld \<Rightarrow> updateObjects w0 (FolderPtr f) (FolderObjects f)
             (Folders (Embedded wfld)) (Documents (Embedded wfld))) = Return (err, w')"
      using a \<open>p = FolderPtr f\<close> FolderPtr l
      by (simp add: Folder_update_def Let_def web_Folder_Folder_def split: sum.splits)
    then have "sent w' = sent w0"
      by (rule after)
    then show ?thesis
      using folder_by_id_sent[OF l] by simp
  qed
qed

text \<open>
  One component of a path: a name that is found costs no request; a name that is not
  found costs one \<open>update\<close> of the node, which issues at most one request, and one more
  lookup, whose miss is the error \<open>ChildNotFound\<close> with the name.
\<close>

lemma ObjectByPath_step_one_refresh:
  assumes "ObjectByPath_step rm w obj part = Return (r, w')"
  shows "ChildByName (Parent_objects w obj) part = Return (Some c) \<Longrightarrow> r = Inr c \<and> w' = w"
    and "ChildByName (Parent_objects w obj) part = Return None \<Longrightarrow>
           \<exists>err. update rm w obj = Return (err, w')
             \<and> (case err of
                  Some e \<Rightarrow> r = Inl e
                | None \<Rightarrow>
                    (case ChildByName (Parent_objects w' obj) part of
                       Return (Some c) \<Rightarrow> r = Inr c
                     | _ \<Rightarrow> r = Inl (ChildNotFound part 0)))"
    and "sent w' = sent w \<or> (\<exists>req. sent w' = sent w @ [req])"
proof -
  have p: "implements_Parent obj"
    by (cases obj) simp_all
  show 1: "r = Inr c \<and> w' = w" if "ChildByName (Parent_objects w obj) part = Return (Some c)" for c
    using assms that p by (simp add: ObjectByPath_step_def)
  show 2: "\<exists>err. update rm w obj = Return (err, w')
             \<and> (case err of
                  Some e \<Rightarrow> r = Inl e
                | None \<Rightarrow>
                    (case ChildByName (Parent_objects w' obj) part of
                       Return (Some c) \<Rightarrow> r = Inr c
                     | _ \<Rightarrow> r = Inl (ChildNotFound part 0)))"
    if "ChildByName (Parent_objects w obj) part = Return None"
    using assms that p
    by (auto simp: ObjectByPath_step_def split: outcome.splits option.splits prod.splits)
  show "sent w' = sent w \<or> (\<exists>req. sent w' = sent w @ [req])"
  proof (cases "ChildByName (Parent_objects w obj) part")
    case (Panicked e)
    with assms p show ?thesis by (simp add: ObjectByPath_step_def)
  next
    case (Return oc)
    show ?thesis
    proof (cases oc)
      case (Some c)
      with Return 1 show ?thesis by simp
    next
      case None
      with Return 2 obtain err where "update rm w obj = Return (err, w')" by blast
      then show ?thesis by (rule update_requests)
    qed
  qed
qed

text \<open>
  Claim C7 at the path \<open>L/A/d\<close> in a new tree: each of the three misses costs one
  request.  The document \<open>d\<close> then passes for a parent: the name \<open>e\<close> of the document
  next to it is resolved under \<open>d\<close>, and a name that does not exist gives
  \<open>ChildNotFound\<close> instead of the error for an object that is no folder or library.
\<close>

theorem document_is_resolved_as_a_parent:
  "(let rm = scripted
       [LibrariesJSON [library_named 1 ''L''],
        FoldersJSON [folder_named 10 ''A''],
        FolderJSON (folder_holding 10 ''A'' [document_named 100 ''d'', document_named 101 ''e''] [])]
    in case ObjectByPath rm NewRoot None [''L'', ''A'', ''d''] of
         Return (Inr obj, w) \<Rightarrow>
           obj = DocumentPtr 2
           \<and> sent w = [GetLibraries, GetLibraryFolders [], GetFolder [] 10]
           \<and> ObjectByPath rm w (Some obj) [''e''] = Return (Inr (DocumentPtr 3), w)
           \<and> ObjectByPath rm w None [''L'', ''A'', ''d'', ''e'', ''d''] = Return (Inr (DocumentPtr 2), w)
           \<and> ObjectByPath rm w (Some obj) [''x''] = Return (Inl (ChildNotFound ''x'' 0), w)
       | _ \<Rightarrow> False)"
  by (simp add: eval_defs)

end
